theory Spec2Isabelle
  imports Main "HOL-Library.Word"
begin

unbundle bit_operations_syntax

section \<open>Instructions (trace.c, \<open>struct _instr_t\<close> and \<open>instr_new\<close>)\<close>

text \<open>
  The tracer runs on x86 only: \<open>uintptr_t\<close> is modelled as a 64-bit word (the hash
  function takes the address as a \<open>uint64_t\<close> seed), \<open>uint8_t\<close> as an 8-bit word and
  \<open>uint16_t\<close> as a 16-bit word, so that every counter wraps as in the C code.
\<close>

datatype instr_type_t = BASIC | BRANCH | CALL | JUMP | RET

record instr_t =
  address :: "64 word"
  type :: instr_type_t
  size_i :: "8 word"
  opcodes :: "8 word list"

text \<open>
  The argument \<open>const uint8_t *opcodes\<close> of \<open>instr_new\<close> is a pointer into the caller's
  buffer: the model takes the memory behind the pointer as a function from the index to
  the byte stored there. The type tests of \<open>instr_new\<close> index that buffer, not the copy
  of \<open>size\<close> bytes kept in the instruction.
\<close>

type_synonym buffer = "nat \<Rightarrow> 8 word"

definition instr_new_type :: "8 word \<Rightarrow> buffer \<Rightarrow> instr_type_t" where
  "instr_new_type sz opc =
     (if (opc 0 \<ge> 0x70 \<and> opc 0 \<le> 0x7F)
         \<or> (opc 0 = 0x0F \<and> opc 1 \<ge> 0x80 \<and> opc 1 \<le> 0x8F)
      then BRANCH
      else if opc 0 = 0xE8
         \<or> opc 0 = 0x9A
         \<or> (opc 0 = 0xFF \<and> (((sz = 2 \<and> opc 1 \<ge> 0xD0 \<and> opc 1 \<le> 0xDF)
                                \<or> sz = 3) \<or> opc 1 = 0x15))
         \<or> (opc 0 = 0x41 \<and> opc 1 = 0xFF
              \<and> ((opc 2 \<ge> 0xD0 \<and> opc 2 \<le> 0xD7) \<or> sz > 3))
      then CALL
      else if (opc 0 \<ge> 0xE9 \<and> opc 0 \<le> 0xEB)
         \<or> (opc 0 = 0xFF \<and> (((sz = 2 \<and> opc 1 \<ge> 0xE0 \<and> opc 1 \<le> 0xEF)
                                \<or> sz = 4 \<or> sz = 5) \<or> opc 1 = 0x25))
         \<or> (opc 0 \<ge> 0xE0 \<and> opc 0 \<le> 0xE3)
         \<or> (opc 0 = 0x41 \<and> opc 1 = 0xFF
              \<and> opc 2 \<ge> 0xE0 \<and> opc 2 \<le> 0xE7)
         \<or> (opc 0 = 0xF3 \<and> (sz = 2 \<or> sz = 3) \<and> opc 1 \<noteq> 0xC3)
      then JUMP
      else if ((opc 0 = 0xC3 \<or> opc 0 = 0xCB) \<and> sz = 1)
         \<or> ((opc 0 = 0xC2 \<or> opc 0 = 0xCA) \<and> sz = 3)
         \<or> (opc 0 = 0xF3 \<and> opc 1 = 0xC3 \<and> sz = 2)
      then RET
      else BASIC)"

text \<open>
  \<open>instr_new\<close> returns \<open>NULL\<close> (here \<open>None\<close>) when the size is zero or the buffer
  pointer is \<open>NULL\<close>; allocation is taken to succeed. \<open>memcpy\<close> copies \<open>size\<close> bytes.
  The fourth parameter of the C function, \<open>str_name\<close>, is not used by its body and is
  left out.
\<close>

definition instr_new :: "64 word \<Rightarrow> 8 word \<Rightarrow> buffer option \<Rightarrow> instr_t option" where
  "instr_new addr sz opcodes_ptr =
     (if sz = 0 \<or> opcodes_ptr = None then None
      else Some \<lparr> address = addr,
                  type = instr_new_type sz (the opcodes_ptr),
                  size_i = sz,
                  opcodes = map (the opcodes_ptr) [0..<unat sz] \<rparr>)"

text \<open>A buffer holding the given bytes, followed by zero bytes.\<close>

definition buffer_of :: "8 word list \<Rightarrow> buffer" where
  "buffer_of bs = (\<lambda>i. if i < length bs then bs ! i else 0)"

subsection \<open>The rule table of the specification\<close>

text \<open>
  The classifier as the specification words it (section 4.1). Its input is the byte
  sequence of the instruction, \<open>opcodes[0..size]\<close>: the size is the length of the
  sequence, and a pattern that names the byte at some index can match only when the
  sequence has a byte there. Four patterns, checked in the order BRANCH, CALL, JUMP, RET,
  the first match winning, BASIC otherwise. These definitions follow the table, not the
  code.
\<close>

definition byte_in :: "8 word list \<Rightarrow> nat \<Rightarrow> 8 word set \<Rightarrow> bool" where
  "byte_in ops i S \<longleftrightarrow> i < length ops \<and> ops ! i \<in> S"

definition spec_branch :: "8 word list \<Rightarrow> bool" where
  "spec_branch ops \<longleftrightarrow>
     byte_in ops 0 {0x70..0x7F} \<or> (byte_in ops 0 {0x0F} \<and> byte_in ops 1 {0x80..0x8F})"

definition spec_call :: "8 word list \<Rightarrow> bool" where
  "spec_call ops \<longleftrightarrow>
     byte_in ops 0 {0xE8} \<or> byte_in ops 0 {0x9A}
     \<or> (byte_in ops 0 {0xFF}
         \<and> ((length ops = 2 \<and> byte_in ops 1 {0xD0..0xDF}) \<or> byte_in ops 1 {0x15}
             \<or> length ops = 3))
     \<or> (byte_in ops 0 {0x41} \<and> byte_in ops 1 {0xFF}
         \<and> (byte_in ops 2 {0xD0..0xD7} \<or> length ops > 3))"

definition spec_jump :: "8 word list \<Rightarrow> bool" where
  "spec_jump ops \<longleftrightarrow>
     byte_in ops 0 {0xE9..0xEB}
     \<or> (byte_in ops 0 {0xFF}
         \<and> ((length ops = 2 \<and> byte_in ops 1 {0xE0..0xEF}) \<or> byte_in ops 1 {0x25}
             \<or> length ops \<in> {4, 5}))
     \<or> byte_in ops 0 {0xE0..0xE3}
     \<or> (byte_in ops 0 {0x41} \<and> byte_in ops 1 {0xFF} \<and> byte_in ops 2 {0xE0..0xE7})
     \<or> (byte_in ops 0 {0xF3} \<and> length ops \<in> {2, 3} \<and> byte_in ops 1 (- {0xC3}))"

definition spec_ret :: "8 word list \<Rightarrow> bool" where
  "spec_ret ops \<longleftrightarrow>
     (byte_in ops 0 {0xC3, 0xCB} \<and> length ops = 1)
     \<or> (byte_in ops 0 {0xC2, 0xCA} \<and> length ops = 3)
     \<or> (byte_in ops 0 {0xF3} \<and> byte_in ops 1 {0xC3} \<and> length ops = 2)"

fun first_match :: "(instr_type_t \<times> bool) list \<Rightarrow> instr_type_t" where
  "first_match [] = BASIC"
| "first_match ((t, b) # rules) = (if b then t else first_match rules)"

definition spec_classify :: "8 word list \<Rightarrow> instr_type_t" where
  "spec_classify ops =
     first_match [(BRANCH, spec_branch ops), (CALL, spec_call ops),
                  (JUMP, spec_jump ops), (RET, spec_ret ops)]"

section \<open>The instruction index (trace.c, \<open>fasthash64\<close> and \<open>struct _hashtable_t\<close>)\<close>

text \<open>The macro \<open>mix\<close>: it updates its argument in place and yields the new value.\<close>

definition mix :: "64 word \<Rightarrow> 64 word" where
  "mix h = (let h1 = h XOR drop_bit 23 h;
                h2 = h1 * 0x2127598bf4325c37
            in h2 XOR drop_bit 47 h2)"

text \<open>
  The value of up to eight bytes read as one little-endian 64-bit word (x86): the loop of
  \<open>fasthash64\<close> reads whole words through a \<open>uint64_t\<close> pointer, and its tail
  \<open>switch\<close> builds the same value byte by byte from the remaining 1 to 7 bytes.
\<close>

fun load_le :: "8 word list \<Rightarrow> 64 word" where
  "load_le [] = 0"
| "load_le (b # bs) = ucast b XOR push_bit 8 (load_le bs)"

fun fasthash64_loop :: "nat \<Rightarrow> 8 word list \<Rightarrow> 64 word \<Rightarrow> 64 word" where
  "fasthash64_loop 0 buf h = h"
| "fasthash64_loop (Suc n) buf h =
     fasthash64_loop n (drop 8 buf) ((h XOR mix (load_le (take 8 buf))) * 0x880355f21e6d1965)"

definition fasthash64 :: "8 word list \<Rightarrow> nat \<Rightarrow> 64 word \<Rightarrow> 64 word" where
  "fasthash64 buf len seed =
     (let m = 0x880355f21e6d1965;
          h0 = seed XOR (of_nat len * m);
          h1 = fasthash64_loop (len div 8) buf h0;
          pos2 = drop (8 * (len div 8)) buf;
          h2 = (if len mod 8 = 0 then h1
                else (h1 XOR mix (load_le (take (len mod 8) pos2))) * m)
      in mix h2)"

definition hash_instr :: "instr_t \<Rightarrow> 64 word" where
  "hash_instr instr = fasthash64 (opcodes instr) (unat (size_i instr)) (address instr)"

text \<open>
  A node of the graph. Nodes live in a heap, a list of nodes in allocation order; a
  pointer to a node is its index there, and \<open>NULL\<close> is \<open>None\<close>. Nodes are not freed
  while the graph is built. The array \<open>successor\<close> is the list of its slots, its length
  being the number of elements the array was allocated for (\<open>calloc (1, ...)\<close>,
  \<open>calloc (2, ...)\<close>, \<open>realloc\<close> to \<open>2 * nb_out\<close> elements); that \<open>calloc\<close> is given
  the size of a node, not of a pointer, for each element only makes the block larger than
  the slots the code uses.
\<close>

record cfg_t =
  instruction :: instr_t
  nb_in :: "16 word"
  nb_out :: "16 word"
  name :: "16 word"
  str_graph :: string
  successor :: "nat option list"

text \<open>
  The table: \<open>size_h\<close> is the field \<open>size\<close>. A bucket is \<open>NULL\<close> or a
  \<open>NULL\<close>-terminated array of at least one node pointer; it is modelled as the list of
  its entries, \<open>[]\<close> for \<open>NULL\<close>.
\<close>

record hashtable_t =
  size_h :: "64 word"
  collisions :: "64 word"
  entries :: "64 word"
  buckets :: "nat \<Rightarrow> nat list"

definition DEFAULT_HASHTABLE_SIZE :: "64 word" where
  "DEFAULT_HASHTABLE_SIZE = 65536"

definition hashtable_new :: "64 word \<Rightarrow> hashtable_t option" where
  "hashtable_new sz =
     (if sz = 0 then None
      else Some \<lparr> size_h = sz, collisions = 0, entries = 0, buckets = (\<lambda>i. []) \<rparr>)"

definition bucket_index :: "hashtable_t \<Rightarrow> instr_t \<Rightarrow> nat" where
  "bucket_index h instr = unat (hash_instr instr mod size_h h)"

text \<open>The scan of a bucket for a node with the given address, first match first.\<close>

fun bucket_scan :: "cfg_t list \<Rightarrow> nat list \<Rightarrow> 64 word \<Rightarrow> nat option" where
  "bucket_scan ns [] a = None"
| "bucket_scan ns (p # ps) a =
     (if address (instruction (ns ! p)) = a then Some p else bucket_scan ns ps a)"

text \<open>
  \<open>hashtable_insert (ht, CFG)\<close>: the heap, the table pointer and the node pointer; it
  returns the boolean result and the table. The test \<open>CFG->instruction == NULL\<close> has
  no counterpart: a node holds its instruction.
\<close>

definition hashtable_insert ::
  "cfg_t list \<Rightarrow> hashtable_t option \<Rightarrow> nat \<Rightarrow> bool \<times> hashtable_t option" where
  "hashtable_insert ns ht p =
     (case ht of
        None \<Rightarrow> (False, None)
      | Some h \<Rightarrow>
          (let index = bucket_index h (instruction (ns ! p)) in
           if buckets h index = []
           then (True, Some (h \<lparr> buckets := (buckets h)(index := [p]),
                                 entries := entries h + 1 \<rparr>))
           else if bucket_scan ns (buckets h index) (address (instruction (ns ! p))) \<noteq> None
           then (True, Some h)
           else (True, Some (h \<lparr> collisions := collisions h + 1,
                                 entries := entries h + 1,
                                 buckets := (buckets h)(index := buckets h index @ [p]) \<rparr>))))"

definition hashtable_lookup :: "cfg_t list \<Rightarrow> hashtable_t option \<Rightarrow> instr_t \<Rightarrow> nat option" where
  "hashtable_lookup ns ht instr =
     (case ht of
        None \<Rightarrow> None
      | Some h \<Rightarrow>
          (let index = bucket_index h instr in
           if buckets h index = [] then None
           else bucket_scan ns (buckets h index) (address instr)))"

definition hashtable_entries :: "hashtable_t \<Rightarrow> 64 word" where
  "hashtable_entries h = entries h"

definition hashtable_collisions :: "hashtable_t \<Rightarrow> 64 word" where
  "hashtable_collisions h = collisions h"

section \<open>Lists and the shadow stack (trace.c, \<open>list_t\<close> and \<open>stack_t\<close>)\<close>

text \<open>
  A \<open>list_t *\<close> is the list of the data of its cells, \<open>[]\<close> for \<open>NULL\<close>. The function
  roster is kept through a pointer to its last cell (\<open>tail_entries\<close>), and
  \<open>list_insert_after\<close> is only called on that last cell: the model holds the roster
  from its first cell (\<open>first_entry\<close>) and \<open>list_insert_after_tail\<close> gives the roster
  after the call; on \<open>NULL\<close> the call returns \<open>NULL\<close>.
\<close>

definition list_insert_after_tail :: "nat list \<Rightarrow> nat \<Rightarrow> nat list" where
  "list_insert_after_tail l d = (if l = [] then [] else l @ [d])"

definition stack_push :: "nat list \<Rightarrow> nat \<Rightarrow> nat list" where
  "stack_push s d = (if s = [] then [d] else d # s)"

definition stack_pop :: "nat list \<Rightarrow> nat list" where
  "stack_pop s = (case s of [] \<Rightarrow> [] | d # tmp \<Rightarrow> tmp)"

definition stack_get_top :: "nat list \<Rightarrow> nat option" where
  "stack_get_top s = (case s of [] \<Rightarrow> None | d # tmp \<Rightarrow> Some d)"

section \<open>The graph builder (trace.c, \<open>cfg_new\<close>, \<open>aux_cfg_insert\<close>, \<open>cfg_insert\<close>)\<close>

text \<open>
  The memory the builder works on: the heap of nodes, the table, the shadow stack
  (\<open>stack\<close> of \<open>main\<close>, top first), the function roster (\<open>first_entry\<close> of \<open>main\<close>,
  whose last cell \<open>tail_entries\<close> points to) and the node of the previous instruction
  (\<open>cfg\<close> of \<open>main\<close>). That every pointer held is the index of a node of the heap is
  part of the invariant of the builder, stated further down.
\<close>

record state =
  nodes :: "cfg_t list"
  ht :: "hashtable_t option"
  stack :: "nat list"
  first_entry :: "nat list"
  cur_cfg :: "nat option"

text \<open>
  What stops a run: a \<open>NULL\<close> pointer dereferenced or an array indexed outside its
  allocated elements (undefined behaviour in C), and the two \<open>err (EXIT_FAILURE, ...)\<close>
  exits of the tracing loop.
\<close>

datatype error = NullDereference | OutOfBounds | CannotCreateInstruction | CannotCreateCFG

text \<open>
  \<open>cfg_new\<close>: the new node is allocated at the end of the heap, zeroed by \<open>calloc\<close>,
  with one successor slot for a BASIC instruction and two otherwise, and is entered into
  the table (the result of \<open>hashtable_insert\<close> is dropped, as in the code). Allocation
  is taken to succeed.
\<close>

definition cfg_new :: "state \<Rightarrow> instr_t \<Rightarrow> string \<Rightarrow> nat \<times> state" where
  "cfg_new s ins str =
     (let CFG = length (nodes s);
          node = \<lparr> instruction = ins, nb_in = 0, nb_out = 0,
                   name = (if first_entry s = [] then 0 else 0),
                   str_graph = str,
                   successor = (if type ins = BASIC then [None] else [None, None]) \<rparr>;
          ns = nodes s @ [node]
      in (CFG, s \<lparr> nodes := ns, ht := snd (hashtable_insert ns (ht s) CFG) \<rparr>))"

text \<open>
  \<open>is_power_2\<close>: the loop runs on while \<open>n\<close> is even; the test \<open>n = 0\<close>, made once
  before the loop in the code, is false again at every later round.
\<close>

function is_power_2 :: "16 word \<Rightarrow> bool" where
  "is_power_2 n =
     (if n = 0 then False
      else if n mod 2 = 0 then (if n = 2 then True else is_power_2 (n div 2))
      else False)"
  by pat_completeness auto
termination
proof (relation "measure unat")
  show "wf (measure unat)" by simp
next
  fix n :: "16 word"
  assume "n \<noteq> 0"
  then have "0 < unat n" by (simp add: unat_gt_0)
  then have "unat n div 2 < unat n" by simp
  then show "(n div 2, n) \<in> measure unat" by (simp add: unat_div)
qed

declare is_power_2.simps [simp del]

text \<open>
  \<open>realloc\<close> of a successor array to \<open>n\<close> elements: the old elements are kept as far
  as they fit; the new ones, which C leaves indeterminate, are \<open>NULL\<close> here.
\<close>

definition realloc_successor :: "nat option list \<Rightarrow> nat \<Rightarrow> nat option list" where
  "realloc_successor arr n = take n arr @ replicate (n - length arr) None"

text \<open>
  The four statements that install an edge from \<open>CFG\<close> to \<open>new\<close> at slot \<open>k\<close>:
  \<open>CFG->successor[k] = new; CFG->nb_out++; new->nb_in++; new->name = CFG->name\<close>,
  in this order on the heap (the two pointers may be equal).
\<close>

definition install_edge :: "cfg_t list \<Rightarrow> nat \<Rightarrow> nat \<Rightarrow> nat \<Rightarrow> error + cfg_t list" where
  "install_edge ns CFG k new =
     (if k < length (successor (ns ! CFG)) then
        (let ns1 = ns[CFG := (ns ! CFG) \<lparr> successor := (successor (ns ! CFG))[k := Some new] \<rparr>];
             ns2 = ns1[CFG := (ns1 ! CFG) \<lparr> nb_out := nb_out (ns1 ! CFG) + 1 \<rparr>];
             ns3 = ns2[new := (ns2 ! new) \<lparr> nb_in := nb_in (ns2 ! new) + 1 \<rparr>];
             ns4 = ns3[new := (ns3 ! new) \<lparr> name := name (ns3 ! CFG) \<rparr>]
         in Inr ns4)
      else Inl OutOfBounds)"

text \<open>
  The loop \<open>for (i = 0; i < CFG->nb_out; i++) if (CFG->successor[i]->instruction->address
  == new->instruction->address) ...\<close>: over the slots of the array, \<open>n\<close> of them still
  to visit, looking for the address \<open>a\<close>.
\<close>

fun successor_scan :: "cfg_t list \<Rightarrow> nat option list \<Rightarrow> nat \<Rightarrow> 64 word \<Rightarrow> error + bool" where
  "successor_scan ns arr 0 a = Inr False"
| "successor_scan ns [] (Suc n) a = Inl OutOfBounds"
| "successor_scan ns (None # arr) (Suc n) a = Inl NullDereference"
| "successor_scan ns (Some q # arr) (Suc n) a =
     (if address (instruction (ns ! q)) = a then Inr True else successor_scan ns arr n a)"

text \<open>
  The end of the JUMP and RET cases, the same text in both: grow the array when
  \<open>is_power_2 (CFG->nb_out)\<close>, then install the edge at slot \<open>nb_out\<close>.
\<close>

definition append_successor :: "state \<Rightarrow> nat \<Rightarrow> nat \<Rightarrow> error + (nat option \<times> state)" where
  "append_successor s CFG new =
     (let ns = nodes s;
          ns1 = (if is_power_2 (nb_out (ns ! CFG))
                 then ns[CFG := (ns ! CFG) \<lparr> successor :=
                        realloc_successor (successor (ns ! CFG)) (2 * unat (nb_out (ns ! CFG))) \<rparr>]
                 else ns)
      in case install_edge ns1 CFG (unat (nb_out (ns1 ! CFG))) new of
           Inl e \<Rightarrow> Inl e
         | Inr ns2 \<Rightarrow> Inr (Some new, s \<lparr> nodes := ns2 \<rparr>))"

text \<open>
  The \<open>switch\<close> of \<open>aux_cfg_insert\<close> on the type of \<open>CFG\<close>, taken when \<open>CFG\<close> is a
  RET or its slot 0 is occupied. It has no case for CALL: a CALL node leaves it
  unchanged. In the RET case \<open>CFG\<close> becomes the call site on top of the stack when the
  new instruction follows that call site, and the stack is popped.
\<close>

definition aux_cfg_insert_switch :: "state \<Rightarrow> nat \<Rightarrow> nat \<Rightarrow> error + (nat option \<times> state)" where
  "aux_cfg_insert_switch s CFG new =
     (case type (instruction (nodes s ! CFG)) of
        BASIC \<Rightarrow>
          if nb_out (nodes s ! CFG) \<ge> 1 then Inr (None, s)
          else Inr (Some new, s)
      | BRANCH \<Rightarrow>
          if nb_out (nodes s ! CFG) \<ge> 2 then Inr (None, s)
          else (case install_edge (nodes s) CFG 1 new of
                  Inl e \<Rightarrow> Inl e
                | Inr ns \<Rightarrow> Inr (Some new, s \<lparr> nodes := ns \<rparr>))
      | CALL \<Rightarrow> Inr (Some new, s)
      | JUMP \<Rightarrow> append_successor s CFG new
      | RET \<Rightarrow>
          if stack s \<noteq> [] then
            (case stack_get_top (stack s) of
               None \<Rightarrow> Inl NullDereference
             | Some top_cfg \<Rightarrow>
                 if address (instruction (nodes s ! new))
                    = address (instruction (nodes s ! top_cfg))
                      + ucast (size_i (instruction (nodes s ! top_cfg)))
                 then
                   (let s1 = s \<lparr> stack := stack_pop (stack s) \<rparr> in
                    case successor_scan (nodes s1) (successor (nodes s1 ! top_cfg))
                           (unat (nb_out (nodes s1 ! top_cfg)))
                           (address (instruction (nodes s1 ! new))) of
                      Inl e \<Rightarrow> Inl e
                    | Inr flag \<Rightarrow>
                        if flag then Inr (Some new, s1)
                        else append_successor s1 top_cfg new)
                 else append_successor s CFG new)
          else append_successor s CFG new)"

text \<open>
  \<open>aux_cfg_insert (CFG, new, stack, tail_entries)\<close>. Slot 0 of the array is read only
  when \<open>CFG\<close> is not a RET (\<open>&&\<close> evaluates its right side only then); when it is empty
  the edge goes there.
\<close>

definition aux_cfg_insert :: "state \<Rightarrow> nat \<Rightarrow> nat option \<Rightarrow> error + (nat option \<times> state)" where
  "aux_cfg_insert s CFG new_ptr =
     (case new_ptr of
        None \<Rightarrow> Inr (None, s)
      | Some new \<Rightarrow>
          if type (instruction (nodes s ! CFG)) \<noteq> RET
          then (case successor (nodes s ! CFG) of
                  [] \<Rightarrow> Inl OutOfBounds
                | slot0 # slots \<Rightarrow>
                    if slot0 = None
                    then (case install_edge (nodes s) CFG 0 new of
                            Inl e \<Rightarrow> Inl e
                          | Inr ns \<Rightarrow> Inr (Some new, s \<lparr> nodes := ns \<rparr>))
                    else aux_cfg_insert_switch s CFG new)
          else aux_cfg_insert_switch s CFG new)"

text \<open>
  \<open>cfg_insert (ht, CFG, ins, str, stack, tail_entries)\<close>; \<open>CFG\<close> is the node of the
  previous instruction.
\<close>

definition cfg_insert ::
  "state \<Rightarrow> nat option \<Rightarrow> instr_t \<Rightarrow> string \<Rightarrow> error + (nat option \<times> state)" where
  "cfg_insert s CFG_ptr ins str =
     (case CFG_ptr of
        None \<Rightarrow> Inr (None, s)
      | Some CFG \<Rightarrow>
          (case hashtable_lookup (nodes s) (ht s) ins of
             None \<Rightarrow>
               (let (new, s1) = cfg_new s ins str;
                    s2 = (if type (instruction (nodes s1 ! CFG)) = CALL
                          then s1 \<lparr> first_entry := list_insert_after_tail (first_entry s1) new,
                                    stack := stack_push (stack s1) CFG \<rparr>
                          else s1)
                in aux_cfg_insert s2 CFG (Some new))
           | Some new \<Rightarrow>
               (let s1 = (if type (instruction (nodes s ! CFG)) = CALL
                          then s \<lparr> stack := stack_push (stack s) CFG \<rparr>
                          else s)
                in case successor_scan (nodes s1) (successor (nodes s1 ! CFG))
                          (unat (nb_out (nodes s1 ! CFG)))
                          (address (instruction (nodes s1 ! new))) of
                     Inl e \<Rightarrow> Inl e
                   | Inr found \<Rightarrow>
                       if found then Inr (Some new, s1)
                       else aux_cfg_insert s1 CFG (Some new))))"

section \<open>The tracing loop (tracker.c, \<open>main\<close>)\<close>

text \<open>
  One observation: the instruction pointer, the size the decoder gave, the 16 bytes read
  at the instruction pointer and the line of text of the node. \<open>observe\<close> is the body of
  the loop from \<open>instr_new\<close> on: the first instruction makes the first node and the
  roster, every later one goes through \<open>cfg_insert\<close>, and a \<open>NULL\<close> result ends the
  run. (The call in tracker.c passes one more argument than \<open>cfg_insert\<close> of trace.c
  takes, a counter of functions; the model follows trace.c.)
\<close>

record observation =
  ip :: "64 word"
  insn_size :: "8 word"
  buf :: buffer
  name_node :: string

definition observe :: "state \<Rightarrow> observation \<Rightarrow> error + state" where
  "observe s ob =
     (case instr_new (ip ob) (insn_size ob) (Some (buf ob)) of
        None \<Rightarrow> Inl CannotCreateInstruction
      | Some instr \<Rightarrow>
          (case cur_cfg s of
             None \<Rightarrow>
               (let (cfg, s1) = cfg_new s instr (name_node ob)
                in Inr (s1 \<lparr> cur_cfg := Some cfg, first_entry := [cfg] \<rparr>))
           | Some c \<Rightarrow>
               (case cfg_insert s (cur_cfg s) instr (name_node ob) of
                  Inl e \<Rightarrow> Inl e
                | Inr (None, s1) \<Rightarrow> Inl CannotCreateCFG
                | Inr (Some cfg, s1) \<Rightarrow> Inr (s1 \<lparr> cur_cfg := Some cfg \<rparr>))))"

fun run :: "state \<Rightarrow> observation list \<Rightarrow> error + state" where
  "run s [] = Inr s"
| "run s (ob # obs) = (case observe s ob of Inl e \<Rightarrow> Inl e | Inr s1 \<Rightarrow> run s1 obs)"

definition init_state :: state where
  "init_state = \<lparr> nodes = [], ht = hashtable_new DEFAULT_HASHTABLE_SIZE, stack = [],
                  first_entry = [], cur_cfg = None \<rparr>"

definition obs :: "64 word \<Rightarrow> 8 word list \<Rightarrow> observation" where
  "obs a bs = \<lparr> ip = a, insn_size = of_nat (length bs), buf = buffer_of bs, name_node = [] \<rparr>"

section \<open>Invariants of the builder\<close>

text \<open>The successors of a node: the first \<open>nb_out\<close> slots of its array.\<close>

definition succs :: "cfg_t \<Rightarrow> nat option list" where
  "succs c = take (unat (nb_out c)) (successor c)"

text \<open>
  The successor array of a node as \<open>append_successor\<close> leaves it before the new slot
  is written (\<open>grown\<close>), and the heap after an edge from \<open>CFG\<close> to \<open>new\<close> has been
  appended at slot \<open>nb_out\<close>: what \<open>append_successor\<close> does to the heap when the slot
  lies inside the array.
\<close>

definition grown :: "cfg_t \<Rightarrow> nat option list" where
  "grown c = (if is_power_2 (nb_out c)
              then realloc_successor (successor c) (2 * unat (nb_out c))
              else successor c)"

definition add_edge :: "cfg_t list \<Rightarrow> nat \<Rightarrow> nat \<Rightarrow> cfg_t list" where
  "add_edge ns CFG new =
     (let c = ns ! CFG;
          arr = (if is_power_2 (nb_out c)
                 then realloc_successor (successor c) (2 * unat (nb_out c))
                 else successor c);
          ns1 = ns[CFG := c \<lparr> successor := arr[unat (nb_out c) := Some new],
                                nb_out := nb_out c + 1 \<rparr>]
      in ns1[new := (ns1 ! new) \<lparr> nb_in := nb_in (ns1 ! new) + 1,
                                   name := name (ns1 ! CFG) \<rparr>])"

text \<open>
  What holds of every node of a heap of \<open>n\<close> nodes: the successors fit the array, the
  array has a power of two of slots (at least two unless the instruction is BASIC), the
  successors are pointers into the heap, slot 0 is empty only when there is no successor,
  BASIC and BRANCH nodes keep their bounds, and the function tag is 0.
\<close>

definition node_inv :: "nat \<Rightarrow> cfg_t \<Rightarrow> bool" where
  "node_inv n c \<longleftrightarrow>
     unat (nb_out c) \<le> length (successor c)
     \<and> (\<exists>k. length (successor c) = 2 ^ k)
     \<and> (type (instruction c) = BASIC \<or> 2 \<le> length (successor c))
     \<and> list_all (\<lambda>x. case x of None \<Rightarrow> False | Some q \<Rightarrow> q < n) (succs c)
     \<and> (nb_out c = 0 \<or> hd (successor c) \<noteq> None)
     \<and> (type (instruction c) = BASIC \<and> nb_out c = 0 \<and> hd (successor c) = None
        \<or> type (instruction c) = BASIC \<and> nb_out c = 1
        \<or> type (instruction c) = BRANCH \<and> nb_out c = 0 \<and> hd (successor c) = None
        \<or> type (instruction c) = BRANCH \<and> (nb_out c = 1 \<or> nb_out c = 2)
        \<or> type (instruction c) = CALL \<or> type (instruction c) = JUMP
        \<or> type (instruction c) = RET)
     \<and> name c = 0"

text \<open>
  What holds of the table over a heap: every entry of bucket \<open>i\<close> is a node of the heap
  whose instruction hashes to \<open>i\<close>, no two entries of a bucket have the same address, and
  every node of the heap is in the bucket of its instruction.
\<close>

definition ht_inv :: "cfg_t list \<Rightarrow> hashtable_t \<Rightarrow> bool" where
  "ht_inv ns h \<longleftrightarrow>
     size_h h \<noteq> 0
     \<and> (\<forall>i. \<forall>p \<in> set (buckets h i). p < length ns \<and> bucket_index h (instruction (ns ! p)) = i)
     \<and> (\<forall>i. distinct (map (\<lambda>p. address (instruction (ns ! p))) (buckets h i)))
     \<and> (\<forall>p < length ns. p \<in> set (buckets h (bucket_index h (instruction (ns ! p)))))"

text \<open>
  The invariant of the builder: \<open>heap_inv\<close> for the heap, the table, the stack (which
  holds CALL nodes only) and the roster, \<open>state_inv\<close> with the previous node added.
  The initial memory satisfies it and \<open>observe\<close> keeps it, so that it holds of every
  memory a run reaches and of the memory at every call of \<open>aux_cfg_insert\<close>.
\<close>

definition heap_inv :: "state \<Rightarrow> bool" where
  "heap_inv s \<longleftrightarrow>
     (\<exists>h. ht s = Some h \<and> ht_inv (nodes s) h)
     \<and> list_all (node_inv (length (nodes s))) (nodes s)
     \<and> list_all (\<lambda>p. p < length (nodes s) \<and> type (instruction (nodes s ! p)) = CALL) (stack s)
     \<and> list_all (\<lambda>p. p < length (nodes s)) (first_entry s)"

definition state_inv :: "state \<Rightarrow> bool" where
  "state_inv s \<longleftrightarrow>
     heap_inv s
     \<and> (case cur_cfg s of None \<Rightarrow> nodes s = [] \<and> first_entry s = []
         | Some p \<Rightarrow> p < length (nodes s))"

text \<open>
  The test of the RET case: the returned-to instruction follows the call site on top of
  the stack (\<open>new->instruction->address == top->instruction->address +
  top->instruction->size\<close>).
\<close>

definition ret_matches :: "cfg_t list \<Rightarrow> nat \<Rightarrow> nat \<Rightarrow> bool" where
  "ret_matches ns new top_cfg \<longleftrightarrow>
     address (instruction (ns ! new))
       = address (instruction (ns ! top_cfg)) + ucast (size_i (instruction (ns ! top_cfg)))"

text \<open>Some successor of the node has the address \<open>a\<close>.\<close>

definition has_successor_at :: "cfg_t list \<Rightarrow> cfg_t \<Rightarrow> 64 word \<Rightarrow> bool" where
  "has_successor_at ns c a \<longleftrightarrow>
     list_ex (\<lambda>x. case x of None \<Rightarrow> False | Some q \<Rightarrow> address (instruction (ns ! q)) = a) (succs c)"

text \<open>
  The memory when \<open>cfg_insert\<close> calls \<open>aux_cfg_insert\<close>: for an instruction seen for
  the first time, after \<open>cfg_new\<close> and, behind a CALL, the entry in the roster and the
  push of the call site; for a known instruction, after the push of the call site.
\<close>

definition prep_new :: "state \<Rightarrow> nat \<Rightarrow> instr_t \<Rightarrow> string \<Rightarrow> state" where
  "prep_new s CFG ins str =
     (let s1 = snd (cfg_new s ins str)
      in if type (instruction (nodes s1 ! CFG)) = CALL
         then s1 \<lparr> first_entry := list_insert_after_tail (first_entry s1) (fst (cfg_new s ins str)),
                   stack := stack_push (stack s1) CFG \<rparr>
         else s1)"

definition prep_known :: "state \<Rightarrow> nat \<Rightarrow> state" where
  "prep_known s CFG =
     (if type (instruction (nodes s ! CFG)) = CALL
      then s \<lparr> stack := stack_push (stack s) CFG \<rparr> else s)"

text \<open>
  What it means that the heap \<open>ns'\<close> is the heap \<open>ns\<close> with one more edge, from \<open>CFG\<close>
  to \<open>new\<close>: the edge sits in the slot after the old successors, both counters have
  gone up by one, \<open>new\<close> has taken the function tag of \<open>CFG\<close>, and nothing else in the
  graph has changed.
\<close>

definition edge_installed :: "cfg_t list \<Rightarrow> cfg_t list \<Rightarrow> nat \<Rightarrow> nat \<Rightarrow> bool" where
  "edge_installed ns ns' CFG new \<longleftrightarrow>
     length ns' = length ns
     \<and> successor (ns' ! CFG) ! unat (nb_out (ns ! CFG)) = Some new
     \<and> take (unat (nb_out (ns ! CFG))) (successor (ns' ! CFG)) = succs (ns ! CFG)
     \<and> nb_out (ns' ! CFG) = nb_out (ns ! CFG) + 1
     \<and> nb_in (ns' ! new) = nb_in (ns ! new) + 1
     \<and> name (ns' ! new) = name (ns ! CFG)
     \<and> (\<forall>p < length ns. instruction (ns' ! p) = instruction (ns ! p))
     \<and> (\<forall>p < length ns. p \<noteq> CFG \<longrightarrow>
           successor (ns' ! p) = successor (ns ! p) \<and> nb_out (ns' ! p) = nb_out (ns ! p))
     \<and> (\<forall>p < length ns. p \<noteq> new \<longrightarrow> nb_in (ns' ! p) = nb_in (ns ! p))"

text \<open>
  The predecessors of node \<open>n\<close>: the nodes of the heap that have \<open>n\<close> among their
  successors, each listed once. The counters agree with the edges when the in-degree of
  every node is the number of its predecessors and no node has the same successor twice.
\<close>

definition predecessors :: "cfg_t list \<Rightarrow> nat \<Rightarrow> nat list" where
  "predecessors ns n = filter (\<lambda>m. Some n \<in> set (succs (ns ! m))) [0..<length ns]"

definition edges_ok :: "cfg_t list \<Rightarrow> bool" where
  "edges_ok ns \<longleftrightarrow>
     list_all (\<lambda>n. unat (nb_in (ns ! n)) = length (predecessors ns n)
                  \<and> distinct (succs (ns ! n))) [0..<length ns]"

section \<open>Example runs\<close>

text \<open>
  A call and the first instruction of the callee; a return to the instruction after a
  call site that is on the stack; a return with an empty stack; two instructions in a
  loop; a jump seen twice; the same address seen with two different opcode bytes
  (self-modifying code, or two programs traced one after the other into the same table);
  and a return instruction that is first reached with an empty stack (a pushed address
  is returned to) and then again from a call whose return address is the same.
\<close>

definition trace_call :: "observation list" where
  "trace_call = [obs 0x1000 [0xE8, 0, 0x10, 0, 0], obs 0x2000 [0x90]]"

definition state_call :: state where
  "state_call =
     \<lparr> nodes =
         [\<lparr> instruction = \<lparr> address = 0x1000, type = CALL, size_i = 5,
                              opcodes = [0xE8, 0, 0x10, 0, 0] \<rparr>,
            nb_in = 0, nb_out = 1, name = 0, str_graph = [], successor = [Some 1, None] \<rparr>,
          \<lparr> instruction = \<lparr> address = 0x2000, type = BASIC, size_i = 1, opcodes = [0x90] \<rparr>,
            nb_in = 1, nb_out = 0, name = 0, str_graph = [], successor = [None] \<rparr>],
       ht = Some \<lparr> size_h = 65536, collisions = 0, entries = 2,
                   buckets = (\<lambda>i. [])(28847 := [0], 52615 := [1]) \<rparr>,
       stack = [0], first_entry = [0, 1], cur_cfg = Some 1 \<rparr>"

definition trace_ret_known :: "observation list" where
  "trace_ret_known = [obs 0x1005 [0x90], obs 0x1000 [0xE8, 0, 0x10, 0, 0], obs 0x2000 [0xC3]]"

definition state_ret_known :: state where
  "state_ret_known =
     \<lparr> nodes =
         [\<lparr> instruction = \<lparr> address = 0x1005, type = BASIC, size_i = 1, opcodes = [0x90] \<rparr>,
            nb_in = 0, nb_out = 1, name = 0, str_graph = [], successor = [Some 1] \<rparr>,
          \<lparr> instruction = \<lparr> address = 0x1000, type = CALL, size_i = 5,
                              opcodes = [0xE8, 0, 0x10, 0, 0] \<rparr>,
            nb_in = 1, nb_out = 1, name = 0, str_graph = [], successor = [Some 2, None] \<rparr>,
          \<lparr> instruction = \<lparr> address = 0x2000, type = RET, size_i = 1, opcodes = [0xC3] \<rparr>,
            nb_in = 1, nb_out = 0, name = 0, str_graph = [], successor = [None, None] \<rparr>],
       ht = Some \<lparr> size_h = 65536, collisions = 0, entries = 3,
                   buckets = (\<lambda>i. [])(56436 := [0], 28847 := [1], 4989 := [2]) \<rparr>,
       stack = [1], first_entry = [0, 2], cur_cfg = Some 2 \<rparr>"

definition trace_ret_empty :: "observation list" where
  "trace_ret_empty = [obs 0x1000 [0x90], obs 0x1001 [0xC3]]"

definition state_ret_empty :: state where
  "state_ret_empty =
     \<lparr> nodes =
         [\<lparr> instruction = \<lparr> address = 0x1000, type = BASIC, size_i = 1, opcodes = [0x90] \<rparr>,
            nb_in = 0, nb_out = 1, name = 0, str_graph = [], successor = [Some 1] \<rparr>,
          \<lparr> instruction = \<lparr> address = 0x1001, type = RET, size_i = 1, opcodes = [0xC3] \<rparr>,
            nb_in = 1, nb_out = 0, name = 0, str_graph = [], successor = [None, None] \<rparr>],
       ht = Some \<lparr> size_h = 65536, collisions = 0, entries = 2,
                   buckets = (\<lambda>i. [])(46387 := [0], 2797 := [1]) \<rparr>,
       stack = [], first_entry = [0], cur_cfg = Some 1 \<rparr>"

definition trace_loop :: "observation list" where
  "trace_loop = [obs 0x1000 [0x90], obs 0x1001 [0x90], obs 0x1000 [0x90]]"

definition state_loop :: state where
  "state_loop =
     \<lparr> nodes =
         [\<lparr> instruction = \<lparr> address = 0x1000, type = BASIC, size_i = 1, opcodes = [0x90] \<rparr>,
            nb_in = 1, nb_out = 1, name = 0, str_graph = [], successor = [Some 1] \<rparr>,
          \<lparr> instruction = \<lparr> address = 0x1001, type = BASIC, size_i = 1, opcodes = [0x90] \<rparr>,
            nb_in = 1, nb_out = 1, name = 0, str_graph = [], successor = [Some 0] \<rparr>],
       ht = Some \<lparr> size_h = 65536, collisions = 0, entries = 2,
                   buckets = (\<lambda>i. [])(46387 := [0], 9363 := [1]) \<rparr>,
       stack = [], first_entry = [0], cur_cfg = Some 0 \<rparr>"

definition trace_jump :: "observation list" where
  "trace_jump = [obs 0x1000 [0xEB, 0x10], obs 0x2000 [0x90], obs 0x1000 [0xEB, 0x10]]"

definition state_jump :: state where
  "state_jump =
     \<lparr> nodes =
         [\<lparr> instruction = \<lparr> address = 0x1000, type = JUMP, size_i = 2, opcodes = [0xEB, 0x10] \<rparr>,
            nb_in = 1, nb_out = 1, name = 0, str_graph = [], successor = [Some 1, None] \<rparr>,
          \<lparr> instruction = \<lparr> address = 0x2000, type = BASIC, size_i = 1, opcodes = [0x90] \<rparr>,
            nb_in = 1, nb_out = 1, name = 0, str_graph = [], successor = [Some 0] \<rparr>],
       ht = Some \<lparr> size_h = 65536, collisions = 0, entries = 2,
                   buckets = (\<lambda>i. [])(31492 := [0], 52615 := [1]) \<rparr>,
       stack = [], first_entry = [0], cur_cfg = Some 0 \<rparr>"

definition trace_same_address :: "observation list" where
  "trace_same_address = trace_jump @ [obs 0x2000 [0xC3]]"

definition state_same_address :: state where
  "state_same_address =
     \<lparr> nodes =
         [\<lparr> instruction = \<lparr> address = 0x1000, type = JUMP, size_i = 2, opcodes = [0xEB, 0x10] \<rparr>,
            nb_in = 1, nb_out = 2, name = 0, str_graph = [], successor = [Some 1, Some 2] \<rparr>,
          \<lparr> instruction = \<lparr> address = 0x2000, type = BASIC, size_i = 1, opcodes = [0x90] \<rparr>,
            nb_in = 1, nb_out = 1, name = 0, str_graph = [], successor = [Some 0] \<rparr>,
          \<lparr> instruction = \<lparr> address = 0x2000, type = RET, size_i = 1, opcodes = [0xC3] \<rparr>,
            nb_in = 1, nb_out = 0, name = 0, str_graph = [], successor = [None, None] \<rparr>],
       ht = Some \<lparr> size_h = 65536, collisions = 0, entries = 3,
                   buckets = (\<lambda>i. [])(31492 := [0], 52615 := [1], 4989 := [2]) \<rparr>,
       stack = [], first_entry = [0], cur_cfg = Some 2 \<rparr>"

definition trace_ret_early :: "observation list" where
  "trace_ret_early =
     [obs 0xFF4 [0x50], obs 0xFF5 [0xC3], obs 0x1005 [0xEB, 0xF9],
      obs 0x1000 [0xE8, 0xF0, 0xFF, 0xFF, 0xFF], obs 0xFF5 [0xC3]]"

definition state_ret_early :: state where
  "state_ret_early =
     \<lparr> nodes =
         [\<lparr> instruction = \<lparr> address = 0xFF4, type = BASIC, size_i = 1, opcodes = [0x50] \<rparr>,
            nb_in = 0, nb_out = 1, name = 0, str_graph = [], successor = [Some 1] \<rparr>,
          \<lparr> instruction = \<lparr> address = 0xFF5, type = RET, size_i = 1, opcodes = [0xC3] \<rparr>,
            nb_in = 2, nb_out = 1, name = 0, str_graph = [], successor = [Some 2, None] \<rparr>,
          \<lparr> instruction = \<lparr> address = 0x1005, type = JUMP, size_i = 2,
                              opcodes = [0xEB, 0xF9] \<rparr>,
            nb_in = 1, nb_out = 1, name = 0, str_graph = [], successor = [Some 3, None] \<rparr>,
          \<lparr> instruction = \<lparr> address = 0x1000, type = CALL, size_i = 5,
                              opcodes = [0xE8, 0xF0, 0xFF, 0xFF, 0xFF] \<rparr>,
            nb_in = 1, nb_out = 1, name = 0, str_graph = [], successor = [Some 1, None] \<rparr>],
       ht = Some \<lparr> size_h = 65536, collisions = 0, entries = 4,
                   buckets = (\<lambda>i. [])(46681 := [0], 11295 := [1], 46738 := [2], 2185 := [3]) \<rparr>,
       stack = [3], first_entry = [0], cur_cfg = Some 1 \<rparr>"

text \<open>
  A run that gives one node 65536 predecessors. The hub is an indirect jump at 0x1000
  (\<open>jmp *%rbx\<close>); spoke \<open>p\<close> is an indirect jump at 0x10000 + 2 p (\<open>jmp *%rax\<close>).
  The run starts at spoke 0, which jumps to the hub; the hub jumps to itself once, and
  then to the spokes 2, 3, ..., 65535 in turn, each of which jumps back to the hub.
  Every address is seen with one byte sequence only.
\<close>

definition obs_hub :: observation where
  "obs_hub = obs 0x1000 [0xFF, 0xE3]"

definition spoke_address :: "nat \<Rightarrow> 64 word" where
  "spoke_address p = of_nat (0x10000 + 2 * p)"

definition obs_spoke :: "nat \<Rightarrow> observation" where
  "obs_spoke p = obs (spoke_address p) [0xFF, 0xE0]"

definition trace_wrap_head :: "observation list" where
  "trace_wrap_head = [obs_spoke 0, obs_hub, obs_hub]"

definition trace_wrap :: "observation list" where
  "trace_wrap = trace_wrap_head @ concat (map (\<lambda>p. [obs_spoke p, obs_hub]) [2..<65536])"

definition state_wrap_head :: state where
  "state_wrap_head =
     \<lparr> nodes =
         [\<lparr> instruction = \<lparr> address = 0x10000, type = JUMP, size_i = 2,
                              opcodes = [0xFF, 0xE0] \<rparr>,
            nb_in = 0, nb_out = 1, name = 0, str_graph = [], successor = [Some 1, None] \<rparr>,
          \<lparr> instruction = \<lparr> address = 0x1000, type = JUMP, size_i = 2,
                              opcodes = [0xFF, 0xE3] \<rparr>,
            nb_in = 2, nb_out = 1, name = 0, str_graph = [], successor = [Some 1, None] \<rparr>],
       ht = Some \<lparr> size_h = 65536, collisions = 0, entries = 2,
                   buckets = (\<lambda>i. [])(12194 := [0], 26455 := [1]) \<rparr>,
       stack = [], first_entry = [0], cur_cfg = Some 1 \<rparr>"

text \<open>
  What holds in that run when the heap has \<open>p\<close> nodes and the hub, node 1, has just
  been observed: the hub has \<open>p - 1\<close> successors and \<open>p\<close> predecessors, and its in-degree
  counter is \<open>p\<close> as a 16-bit number.
\<close>

definition wrap_inv :: "nat \<Rightarrow> state \<Rightarrow> bool" where
  "wrap_inv p s \<longleftrightarrow>
     state_inv s \<and> length (nodes s) = p \<and> cur_cfg s = Some 1
     \<and> instruction (nodes s ! 1)
         = \<lparr> address = 0x1000, type = JUMP, size_i = 2, opcodes = [0xFF, 0xE3] \<rparr>
     \<and> list_all (\<lambda>q. q = 1 \<or> address (instruction (nodes s ! q)) = spoke_address q)
          [0..<p]
     \<and> unat (nb_out (nodes s ! 1)) = p - 1
     \<and> length (predecessors (nodes s) 1) = p
     \<and> nb_in (nodes s ! 1) = of_nat p"
section \<open>The classifier\<close>

lemma byte_in_map:
  "byte_in (map opc [0..<n]) i S \<longleftrightarrow> i < n \<and> opc i \<in> S"
  by (auto simp: byte_in_def)

lemma size_cases:
  fixes sz :: "8 word"
  shows "(sz = 1 \<longleftrightarrow> unat sz = 1)" "(sz = 2 \<longleftrightarrow> unat sz = 2)" "(sz = 3 \<longleftrightarrow> unat sz = 3)"
    "(sz = 4 \<longleftrightarrow> unat sz = 4)" "(sz = 5 \<longleftrightarrow> unat sz = 5)" "(sz > 3 \<longleftrightarrow> unat sz > 3)"
  by (simp_all add: word_unat_eq_iff word_less_nat_alt)

lemmas table_unfold = byte_in_map length_map length_upt diff_zero atLeastAtMost_iff
  insert_iff empty_iff Compl_iff

lemma size_three:
  fixes sz :: "8 word"
  assumes "3 \<le> unat sz"
  shows "(0 < unat sz) = True" "(1 < unat sz) = True" "(2 < unat sz) = True"
    "(unat sz = 2) = False" "(unat sz = 1) = False" "(sz = 1) = False" "(sz = 2) = False"
    "(sz = 3) = (unat sz = 3)" "(sz = 4) = (unat sz = 4)" "(sz = 5) = (unat sz = 5)"
    "(3 < sz) = (3 < unat sz)"
  using assms by (auto simp: size_cases)

lemma size_two:
  fixes sz :: "8 word"
  assumes "unat sz = 2"
  shows "(0 < unat sz) = True" "(1 < unat sz) = True" "(2 < unat sz) = False"
    "(3 < unat sz) = False" "(unat sz = 2) = True" "(unat sz = 1) = False"
    "(unat sz = 3) = False" "(unat sz = 4) = False" "(unat sz = 5) = False" "(sz = 1) = False"
    "(sz = 2) = True" "(sz = 3) = False" "(sz = 4) = False" "(sz = 5) = False"
    "(3 < sz) = False"
  using assms by (auto simp: size_cases)

lemma size_one:
  fixes sz :: "8 word"
  assumes "unat sz = 1"
  shows "(0 < unat sz) = True" "(1 < unat sz) = False" "(2 < unat sz) = False"
    "(3 < unat sz) = False" "(unat sz = 1) = True" "(unat sz = 2) = False"
    "(unat sz = 3) = False" "(unat sz = 4) = False" "(unat sz = 5) = False" "(sz = 1) = True"
    "(sz = 2) = False" "(sz = 3) = False" "(sz = 4) = False" "(sz = 5) = False"
    "(3 < sz) = False"
  using assms by (auto simp: size_cases)

lemma spec_branch_code:
  fixes sz :: "8 word"
  assumes "3 \<le> unat sz
     \<or> (unat sz = 2 \<and> \<not> (opc 0 = 0x41 \<and> opc 1 = 0xFF))
     \<or> (unat sz = 1 \<and> opc 0 \<noteq> 0x0F \<and> opc 0 \<noteq> 0xFF \<and> opc 0 \<noteq> 0x41)"
  shows "spec_branch (map opc [0..<unat sz]) \<longleftrightarrow> ((opc 0 \<ge> 0x70 \<and> opc 0 \<le> 0x7F)
         \<or> (opc 0 = 0x0F \<and> opc 1 \<ge> 0x80 \<and> opc 1 \<le> 0x8F))"
proof -
  consider (three) "3 \<le> unat sz"
    | (two) "unat sz = 2" "\<not> (opc 0 = 0x41 \<and> opc 1 = 0xFF)"
    | (one) "unat sz = 1" "opc 0 \<noteq> 0x0F" "opc 0 \<noteq> 0xFF" "opc 0 \<noteq> 0x41"
    using assms by blast
  then show ?thesis
  proof cases
    case three
    note a = size_three[OF three]
    show ?thesis unfolding spec_branch_def table_unfold a by blast
  next
    case two
    note a = size_two[OF two(1)]
    show ?thesis using two(2) unfolding spec_branch_def table_unfold a by blast
  next
    case one
    note a = size_one[OF one(1)]
    show ?thesis using one(2,3,4) unfolding spec_branch_def table_unfold a by blast
  qed
qed

lemma spec_call_code:
  fixes sz :: "8 word"
  assumes "3 \<le> unat sz
     \<or> (unat sz = 2 \<and> \<not> (opc 0 = 0x41 \<and> opc 1 = 0xFF))
     \<or> (unat sz = 1 \<and> opc 0 \<noteq> 0x0F \<and> opc 0 \<noteq> 0xFF \<and> opc 0 \<noteq> 0x41)"
  shows "spec_call (map opc [0..<unat sz]) \<longleftrightarrow> (opc 0 = 0xE8
         \<or> opc 0 = 0x9A
         \<or> (opc 0 = 0xFF \<and> (((sz = 2 \<and> opc 1 \<ge> 0xD0 \<and> opc 1 \<le> 0xDF)
                                \<or> sz = 3) \<or> opc 1 = 0x15))
         \<or> (opc 0 = 0x41 \<and> opc 1 = 0xFF
              \<and> ((opc 2 \<ge> 0xD0 \<and> opc 2 \<le> 0xD7) \<or> sz > 3)))"
proof -
  consider (three) "3 \<le> unat sz"
    | (two) "unat sz = 2" "\<not> (opc 0 = 0x41 \<and> opc 1 = 0xFF)"
    | (one) "unat sz = 1" "opc 0 \<noteq> 0x0F" "opc 0 \<noteq> 0xFF" "opc 0 \<noteq> 0x41"
    using assms by blast
  then show ?thesis
  proof cases
    case three
    note a = size_three[OF three]
    show ?thesis unfolding spec_call_def table_unfold a by blast
  next
    case two
    note a = size_two[OF two(1)]
    show ?thesis using two(2) unfolding spec_call_def table_unfold a by blast
  next
    case one
    note a = size_one[OF one(1)]
    show ?thesis using one(2,3,4) unfolding spec_call_def table_unfold a by blast
  qed
qed

lemma spec_jump_code:
  fixes sz :: "8 word"
  assumes "3 \<le> unat sz
     \<or> (unat sz = 2 \<and> \<not> (opc 0 = 0x41 \<and> opc 1 = 0xFF))
     \<or> (unat sz = 1 \<and> opc 0 \<noteq> 0x0F \<and> opc 0 \<noteq> 0xFF \<and> opc 0 \<noteq> 0x41)"
  shows "spec_jump (map opc [0..<unat sz]) \<longleftrightarrow> ((opc 0 \<ge> 0xE9 \<and> opc 0 \<le> 0xEB)
         \<or> (opc 0 = 0xFF \<and> (((sz = 2 \<and> opc 1 \<ge> 0xE0 \<and> opc 1 \<le> 0xEF)
                                \<or> sz = 4 \<or> sz = 5) \<or> opc 1 = 0x25))
         \<or> (opc 0 \<ge> 0xE0 \<and> opc 0 \<le> 0xE3)
         \<or> (opc 0 = 0x41 \<and> opc 1 = 0xFF
              \<and> opc 2 \<ge> 0xE0 \<and> opc 2 \<le> 0xE7)
         \<or> (opc 0 = 0xF3 \<and> (sz = 2 \<or> sz = 3) \<and> opc 1 \<noteq> 0xC3))"
proof -
  consider (three) "3 \<le> unat sz"
    | (two) "unat sz = 2" "\<not> (opc 0 = 0x41 \<and> opc 1 = 0xFF)"
    | (one) "unat sz = 1" "opc 0 \<noteq> 0x0F" "opc 0 \<noteq> 0xFF" "opc 0 \<noteq> 0x41"
    using assms by blast
  then show ?thesis
  proof cases
    case three
    note a = size_three[OF three]
    show ?thesis unfolding spec_jump_def table_unfold a by blast
  next
    case two
    note a = size_two[OF two(1)]
    show ?thesis using two(2) unfolding spec_jump_def table_unfold a by blast
  next
    case one
    note a = size_one[OF one(1)]
    show ?thesis using one(2,3,4) unfolding spec_jump_def table_unfold a by blast
  qed
qed

lemma spec_ret_code:
  fixes sz :: "8 word"
  assumes "3 \<le> unat sz
     \<or> (unat sz = 2 \<and> \<not> (opc 0 = 0x41 \<and> opc 1 = 0xFF))
     \<or> (unat sz = 1 \<and> opc 0 \<noteq> 0x0F \<and> opc 0 \<noteq> 0xFF \<and> opc 0 \<noteq> 0x41)"
  shows "spec_ret (map opc [0..<unat sz]) \<longleftrightarrow> (((opc 0 = 0xC3 \<or> opc 0 = 0xCB) \<and> sz = 1)
         \<or> ((opc 0 = 0xC2 \<or> opc 0 = 0xCA) \<and> sz = 3)
         \<or> (opc 0 = 0xF3 \<and> opc 1 = 0xC3 \<and> sz = 2))"
proof -
  consider (three) "3 \<le> unat sz"
    | (two) "unat sz = 2" "\<not> (opc 0 = 0x41 \<and> opc 1 = 0xFF)"
    | (one) "unat sz = 1" "opc 0 \<noteq> 0x0F" "opc 0 \<noteq> 0xFF" "opc 0 \<noteq> 0x41"
    using assms by blast
  then show ?thesis
  proof cases
    case three
    note a = size_three[OF three]
    show ?thesis unfolding spec_ret_def table_unfold a by blast
  next
    case two
    note a = size_two[OF two(1)]
    show ?thesis using two(2) unfolding spec_ret_def table_unfold a by blast
  next
    case one
    note a = size_one[OF one(1)]
    show ?thesis using one(2,3,4) unfolding spec_ret_def table_unfold a by blast
  qed
qed

lemma instr_new_type_spec:
  fixes sz :: "8 word"
  assumes "3 \<le> unat sz
     \<or> (unat sz = 2 \<and> \<not> (opc 0 = 0x41 \<and> opc 1 = 0xFF))
     \<or> (unat sz = 1 \<and> opc 0 \<noteq> 0x0F \<and> opc 0 \<noteq> 0xFF \<and> opc 0 \<noteq> 0x41)"
  shows "instr_new_type sz opc = spec_classify (map opc [0..<unat sz])"
  unfolding instr_new_type_def spec_classify_def first_match.simps
    spec_branch_code[OF assms] spec_call_code[OF assms] spec_jump_code[OF assms]
    spec_ret_code[OF assms]
  by (rule refl)

text \<open>
  C3. On every instruction whose type tests stay inside its own bytes, the type that
  \<open>instr_new\<close> stores is the one the rule table of section 4.1 gives for the byte sequence
  of the instruction, with the rules tried in the order BRANCH, CALL, JUMP, RET and BASIC
  as the default. That is every instruction of three bytes or more, of two bytes unless
  they are 0x41 0xFF, and of one byte unless it is 0x0F, 0xFF or 0x41. A first byte 0xFF
  with size 3 is a CALL whatever the following bytes are, also where a JUMP pattern
  matches as well (second byte 0x25). On the other instructions the code reads the bytes
  that follow the instruction in memory, which the table does not have: the one-byte
  instruction 0x41 (\<open>inc %ecx\<close> on 32-bit x86) followed by 0xFF 0xE0 (\<open>jmp *%eax\<close>) is
  a JUMP for the code and BASIC for the table.
\<close>

theorem instr_new_type_table:
  fixes sz :: "8 word"
  shows
   "(instr_new a sz (Some opc) = Some i
       \<and> (3 \<le> unat sz
          \<or> (unat sz = 2 \<and> \<not> (opc 0 = 0x41 \<and> opc 1 = 0xFF))
          \<or> (unat sz = 1 \<and> opc 0 \<noteq> 0x0F \<and> opc 0 \<noteq> 0xFF \<and> opc 0 \<noteq> 0x41))
      \<longrightarrow> opcodes i = map opc [0..<unat sz] \<and> type i = spec_classify (opcodes i))
    \<and> (instr_new a 3 (Some (opc(0 := 0xFF))) = Some j
      \<longrightarrow> type j = CALL \<and> spec_classify (opcodes j) = CALL)
    \<and> spec_call [0xFF, 0x25, 0] \<and> spec_jump [0xFF, 0x25, 0]
    \<and> spec_classify [0xFF, 0x25, 0] = CALL
    \<and> map_option type (instr_new a 1 (Some (buffer_of [0x41, 0xFF, 0xE0]))) = Some JUMP
    \<and> map_option opcodes (instr_new a 1 (Some (buffer_of [0x41, 0xFF, 0xE0]))) = Some [0x41]
    \<and> spec_classify [0x41] = BASIC"
proof -
  have 1: "opcodes i = map opc [0..<unat sz] \<and> type i = spec_classify (opcodes i)"
    if "instr_new a sz (Some opc) = Some i"
      and r: "3 \<le> unat sz
          \<or> (unat sz = 2 \<and> \<not> (opc 0 = 0x41 \<and> opc 1 = 0xFF))
          \<or> (unat sz = 1 \<and> opc 0 \<noteq> 0x0F \<and> opc 0 \<noteq> 0xFF \<and> opc 0 \<noteq> 0x41)"
  proof -
    have "i = \<lparr> address = a, type = instr_new_type sz opc, size_i = sz,
                opcodes = map opc [0..<unat sz] \<rparr>"
      using that(1) by (simp add: instr_new_def split: if_splits)
    then show ?thesis using instr_new_type_spec[OF r] by simp
  qed
  have 2: "type j = CALL \<and> spec_classify (opcodes j) = CALL"
    if "instr_new a 3 (Some (opc(0 := 0xFF))) = Some j"
  proof -
    have r: "3 \<le> unat (3 :: 8 word)" by simp
    have "instr_new_type 3 (opc(0 := 0xFF)) = CALL" by (simp add: instr_new_type_def)
    moreover have "j = \<lparr> address = a, type = instr_new_type 3 (opc(0 := 0xFF)), size_i = 3,
                opcodes = map (opc(0 := 0xFF)) [0..<unat (3 :: 8 word)] \<rparr>"
      using that by (simp add: instr_new_def)
    ultimately show ?thesis
      using instr_new_type_spec[of 3 "opc(0 := 0xFF)", OF disjI1, OF r] by simp
  qed
  have 3: "spec_call [0xFF, 0x25, 0]" by (simp add: spec_call_def byte_in_def)
  have 4: "spec_jump [0xFF, 0x25, 0]" by (simp add: spec_jump_def byte_in_def)
  have 5: "spec_classify [0xFF, 0x25, 0] = CALL"
    by (simp add: spec_classify_def spec_branch_def spec_call_def byte_in_def)
  have 6: "map_option type (instr_new a 1 (Some (buffer_of [0x41, 0xFF, 0xE0]))) = Some JUMP"
    by (simp add: instr_new_def instr_new_type_def buffer_of_def)
  have 7: "map_option opcodes (instr_new a 1 (Some (buffer_of [0x41, 0xFF, 0xE0]))) = Some [0x41]"
    by (simp add: instr_new_def buffer_of_def)
  have 8: "spec_classify [0x41] = BASIC"
    by (simp add: spec_classify_def spec_branch_def spec_call_def spec_jump_def spec_ret_def
        byte_in_def)
  show ?thesis using 1 2 3 4 5 6 7 8 by blast
qed

theorem instr_new_type_table_witness:
  "instr_new 0x1000 3 (Some (buffer_of [0xFF, 0x25, 0]))
     = Some \<lparr> address = 0x1000, type = CALL, size_i = 3, opcodes = [0xFF, 0x25, 0] \<rparr>
   \<and> 3 \<le> unat (3 :: 8 word)
   \<and> spec_classify [0xFF, 0x25, 0] = CALL
   \<and> instr_new 0x2000 1 (Some (buffer_of [0xC3]))
     = Some \<lparr> address = 0x2000, type = RET, size_i = 1, opcodes = [0xC3] \<rparr>
   \<and> spec_classify [0xC3] = RET"
proof -
  have h: "instr_new 0x1000 3 (Some (buffer_of [0xFF, 0x25, 0]))
     = Some \<lparr> address = 0x1000, type = CALL, size_i = 3, opcodes = [0xFF, 0x25, 0] \<rparr>"
    "instr_new 0x2000 1 (Some (buffer_of [0xC3]))
     = Some \<lparr> address = 0x2000, type = RET, size_i = 1, opcodes = [0xC3] \<rparr>"
    by (simp_all add: instr_new_def instr_new_type_def buffer_of_def upt_conv_Cons)
  have b: "buffer_of [0xC3] 0 = 0xC3" by (simp add: buffer_of_def)
  show ?thesis
    using instr_new_type_table[where a = "0x1000" and sz = 3 and opc = "buffer_of [0xFF, 0x25, 0]"
        and i = "\<lparr> address = 0x1000, type = CALL, size_i = 3, opcodes = [0xFF, 0x25, 0] \<rparr>"]
      instr_new_type_table[where a = "0x2000" and sz = 1 and opc = "buffer_of [0xC3]"
        and i = "\<lparr> address = 0x2000, type = RET, size_i = 1, opcodes = [0xC3] \<rparr>"] h b
    by simp
qed

text \<open>
  C4. The type is not a function of the size and the first \<open>size\<close> bytes alone: the tests
  read the bytes at indices 1 and 2 of the buffer without looking at the size. A one-byte
  instruction 0x41 (\<open>inc %ecx\<close> on 32-bit x86) is a CALL when the next instruction in
  memory starts with 0xFF 0xD0, and BASIC when it is followed by 0x90 0x90; the two
  instructions built have the same address, size and opcode bytes.
\<close>

theorem instr_new_type_reads_past_size:
  "instr_new_type 1 (buffer_of [0x41, 0xFF, 0xD0]) = CALL
   \<and> instr_new_type 1 (buffer_of [0x41, 0x90, 0x90]) = BASIC
   \<and> map (buffer_of [0x41, 0xFF, 0xD0]) [0..<unat (1 :: 8 word)]
       = map (buffer_of [0x41, 0x90, 0x90]) [0..<unat (1 :: 8 word)]
   \<and> map_option opcodes (instr_new a 1 (Some (buffer_of [0x41, 0xFF, 0xD0])))
       = map_option opcodes (instr_new a 1 (Some (buffer_of [0x41, 0x90, 0x90])))
   \<and> map_option type (instr_new a 1 (Some (buffer_of [0x41, 0xFF, 0xD0])))
       \<noteq> map_option type (instr_new a 1 (Some (buffer_of [0x41, 0x90, 0x90])))"
  by (simp add: instr_new_type_def instr_new_def buffer_of_def)

section \<open>Lemmas about the builder\<close>

subsection \<open>Powers of two and the successor array\<close>

lemma is_power_2_iff: "is_power_2 n \<longleftrightarrow> (\<exists>j. 1 \<le> j \<and> unat n = 2 ^ j)"
proof (induction n rule: is_power_2.induct)
  case (1 n)
  show ?case
  proof (cases "n = 0")
    case True
    then show ?thesis by (simp add: is_power_2.simps)
  next
    case n0: False
    show ?thesis
    proof (cases "n mod 2 = 0")
      case even: True
      then have "unat (n mod 2) = 0" by simp
      then have ev: "unat n mod 2 = 0" by (simp add: unat_mod)
      show ?thesis
      proof (cases "n = 2")
        case True
        then have "unat n = 2 ^ 1" by simp
        then show ?thesis using True by (subst is_power_2.simps) (auto intro: exI[of _ 1])
      next
        case n2: False
        have u2: "unat n \<noteq> 2"
        proof
          assume "unat n = 2"
          then have "unat n = unat (2 :: 16 word)" by simp
          then show False using n2 by (simp add: word_unat_eq_iff)
        qed
        have d: "unat (n div 2) = unat n div 2" by (simp add: unat_div)
        have "is_power_2 n = is_power_2 (n div 2)"
          using n0 even n2 by (subst is_power_2.simps) simp
        also have "\<dots> \<longleftrightarrow> (\<exists>j. 1 \<le> j \<and> unat n div 2 = 2 ^ j)"
          using 1 n0 even n2 d by simp
        also have "\<dots> \<longleftrightarrow> (\<exists>j. 1 \<le> j \<and> unat n = 2 ^ j)"
        proof
          assume "\<exists>j. 1 \<le> j \<and> unat n div 2 = 2 ^ j"
          then obtain j where j: "1 \<le> j" "unat n div 2 = 2 ^ j" by blast
          have "unat n = 2 * (unat n div 2)" using ev by presburger
          then have "unat n = 2 ^ Suc j" using j by simp
          then show "\<exists>j. 1 \<le> j \<and> unat n = 2 ^ j" by (intro exI[of _ "Suc j"]) simp
        next
          assume "\<exists>j. 1 \<le> j \<and> unat n = 2 ^ j"
          then obtain j where j: "1 \<le> j" "unat n = 2 ^ j" by blast
          then have "j \<noteq> 1" using u2 by auto
          then obtain i where i: "j = Suc i" "1 \<le> i" using j(1) by (cases j) auto
          then have "unat n div 2 = 2 ^ i" using j by simp
          then show "\<exists>j. 1 \<le> j \<and> unat n div 2 = 2 ^ j" using i by blast
        qed
        finally show ?thesis .
      qed
    next
      case odd: False
      then have "unat (n mod 2) \<noteq> 0" by (simp add: unat_eq_0)
      then have o: "unat n mod 2 \<noteq> 0" by (simp add: unat_mod)
      have "\<not> is_power_2 n" using n0 odd by (subst is_power_2.simps) simp
      moreover have "\<not> (\<exists>j. 1 \<le> j \<and> unat n = 2 ^ j)"
      proof
        assume "\<exists>j. 1 \<le> j \<and> unat n = 2 ^ j"
        then obtain j where j: "1 \<le> j" "unat n = 2 ^ j" by blast
        then obtain i where "j = Suc i" by (cases j) auto
        then have "unat n mod 2 = 0" using j by simp
        then show False using o by simp
      qed
      ultimately show ?thesis by simp
    qed
  qed
qed

lemma realloc_successor_length [simp]: "length (realloc_successor arr n) = n"
  by (simp add: realloc_successor_def)

lemma realloc_successor_nth: "i < n \<Longrightarrow> i < length arr \<Longrightarrow> realloc_successor arr n ! i = arr ! i"
  by (simp add: realloc_successor_def nth_append)

lemma realloc_successor_take:
  "k \<le> n \<Longrightarrow> k \<le> length arr \<Longrightarrow> take k (realloc_successor arr n) = take k arr"
  by (simp add: realloc_successor_def min_def)

lemma add_edge_length [simp]: "length (add_edge ns C new) = length ns"
  by (simp add: add_edge_def Let_def)

lemma add_edge_nth:
  "p < length ns \<Longrightarrow> add_edge ns C new ! p =
     (let c' = (ns ! C) \<lparr> successor := (grown (ns ! C))[unat (nb_out (ns ! C)) := Some new],
                           nb_out := nb_out (ns ! C) + 1 \<rparr>;
          base = (if p = C then c' else ns ! p)
      in if p = new then base \<lparr> nb_in := nb_in base + 1, name := name (ns ! C) \<rparr> else base)"
  by (cases "p = new"; cases "p = C"; cases "C < length ns")
     (simp_all add: add_edge_def Let_def grown_def list_update_beyond)

lemma add_edge_instruction:
  "p < length ns \<Longrightarrow> instruction (add_edge ns C new ! p) = instruction (ns ! p)"
  by (simp add: add_edge_nth Let_def)

lemma add_edge_successor:
  "p < length ns \<Longrightarrow> successor (add_edge ns C new ! p) =
     (if p = C then (grown (ns ! C))[unat (nb_out (ns ! C)) := Some new] else successor (ns ! p))"
  by (simp add: add_edge_nth Let_def)

lemma add_edge_nb_out:
  "p < length ns \<Longrightarrow> nb_out (add_edge ns C new ! p) =
     (if p = C then nb_out (ns ! C) + 1 else nb_out (ns ! p))"
  by (simp add: add_edge_nth Let_def)

lemma add_edge_nb_in:
  "p < length ns \<Longrightarrow> nb_in (add_edge ns C new ! p) =
     (if p = new then nb_in (ns ! p) + 1 else nb_in (ns ! p))"
  by (simp add: add_edge_nth Let_def)

lemma add_edge_name:
  "p < length ns \<Longrightarrow> name (add_edge ns C new ! p) =
     (if p = new then name (ns ! C) else name (ns ! p))"
  by (simp add: add_edge_nth Let_def)

lemma add_edge_str_graph:
  "p < length ns \<Longrightarrow> str_graph (add_edge ns C new ! p) = str_graph (ns ! p)"
  by (simp add: add_edge_nth Let_def)

lemma install_edge_eq:
  assumes "C < length ns" "new < length ns"
    and "\<not> is_power_2 (nb_out (ns ! C))" "k = unat (nb_out (ns ! C))"
    and "k < length (successor (ns ! C))"
  shows "install_edge ns C k new = Inr (add_edge ns C new)"
proof -
  have "install_edge ns C k new = Inr (add_edge ns C new)"
    using assms
    by (cases "C = new")
       (simp_all add: install_edge_def add_edge_def Let_def)
  then show ?thesis .
qed

lemma append_successor_eq:
  assumes "C < length (nodes s)" "new < length (nodes s)"
    and "unat (nb_out (nodes s ! C)) < length (grown (nodes s ! C))"
  shows "append_successor s C new = Inr (Some new, s \<lparr> nodes := add_edge (nodes s) C new \<rparr>)"
  using assms
  by (cases "C = new"; cases "is_power_2 (nb_out (nodes s ! C))")
     (simp_all add: append_successor_def install_edge_def add_edge_def grown_def Let_def)

lemma successor_scan_ok:
  "k \<le> length arr \<Longrightarrow> list_all (\<lambda>x. x \<noteq> None) (take k arr) \<Longrightarrow>
   successor_scan ns arr k a =
     Inr (\<exists>q. Some q \<in> set (take k arr) \<and> address (instruction (ns ! q)) = a)"
proof (induction arr arbitrary: k)
  case Nil
  then show ?case by simp
next
  case (Cons x arr)
  show ?case
  proof (cases k)
    case 0
    then show ?thesis by simp
  next
    case (Suc k')
    with Cons.prems obtain q where x: "x = Some q" by auto
    have "successor_scan ns arr k' a =
            Inr (\<exists>q. Some q \<in> set (take k' arr) \<and> address (instruction (ns ! q)) = a)"
      using Cons.prems Suc by (intro Cons.IH) auto
    then show ?thesis using Suc x by auto
  qed
qed

lemma node_inv_valid_nonnull:
  "node_inv n c \<Longrightarrow> list_all (\<lambda>x. x \<noteq> None) (succs c)"
  by (auto simp: node_inv_def list_all_iff split: option.splits)

lemma successor_scan_node:
  assumes "node_inv n c"
  shows "successor_scan ns (successor c) (unat (nb_out c)) a =
           Inr (\<exists>q. Some q \<in> set (succs c) \<and> address (instruction (ns ! q)) = a)"
proof -
  have "unat (nb_out c) \<le> length (successor c)" using assms by (simp add: node_inv_def)
  moreover have "list_all (\<lambda>x. x \<noteq> None) (take (unat (nb_out c)) (successor c))"
    using node_inv_valid_nonnull[OF assms] by (simp add: succs_def)
  ultimately show ?thesis unfolding succs_def by (rule successor_scan_ok)
qed

lemma is_power_2_ge2: "is_power_2 n \<Longrightarrow> 2 \<le> unat n"
proof -
  assume "is_power_2 n"
  then obtain j where j: "1 \<le> j" "unat n = 2 ^ j" by (auto simp: is_power_2_iff)
  then obtain i where "j = Suc i" by (cases j) auto
  then show ?thesis using j by simp
qed

lemma grown_length_pow2:
  assumes "\<exists>k. length (successor c) = 2 ^ k"
  shows "\<exists>k. length (grown c) = 2 ^ k"
proof (cases "is_power_2 (nb_out c)")
  case True
  then obtain j where "unat (nb_out c) = 2 ^ j" by (auto simp: is_power_2_iff)
  then have "length (grown c) = 2 ^ Suc j" using True by (simp add: grown_def)
  then show ?thesis by blast
next
  case False
  then show ?thesis using assms by (simp add: grown_def)
qed

lemma slot_in_range:
  assumes inv: "node_inv n c"
    and basic: "type (instruction c) = BASIC \<Longrightarrow> nb_out c = 0"
  shows "unat (nb_out c) < length (grown c)"
proof (cases "is_power_2 (nb_out c)")
  case True
  then show ?thesis using is_power_2_ge2[OF True] by (simp add: grown_def)
next
  case False
  have le: "unat (nb_out c) \<le> length (successor c)" using inv by (simp add: node_inv_def)
  obtain j where j: "length (successor c) = 2 ^ j" using inv by (auto simp: node_inv_def)
  have "unat (nb_out c) \<noteq> length (successor c)"
  proof
    assume eq: "unat (nb_out c) = length (successor c)"
    have "j = 0"
    proof (rule ccontr)
      assume "j \<noteq> 0"
      then have "1 \<le> j \<and> unat (nb_out c) = 2 ^ j" using eq j by simp
      then show False using False by (auto simp: is_power_2_iff)
    qed
    then have one: "length (successor c) = 1" "unat (nb_out c) = 1" using j eq by simp_all
    then have "type (instruction c) = BASIC" using inv by (auto simp: node_inv_def)
    then have "nb_out c = 0" by (rule basic)
    then show False using one by simp
  qed
  then show ?thesis using le False by (simp add: grown_def)
qed

lemma grown_take:
  assumes "unat (nb_out c) \<le> length (successor c)"
  shows "take (unat (nb_out c)) (grown c) = succs c"
  using assms by (simp add: grown_def succs_def realloc_successor_take)

lemma grown_hd:
  assumes "unat (nb_out c) \<le> length (successor c)" "nb_out c \<noteq> 0"
  shows "hd (grown c) = hd (successor c)"
proof -
  have pos: "0 < unat (nb_out c)" using assms(2) by (simp add: unat_gt_0)
  then have "successor c \<noteq> []" using assms(1) by auto
  then show ?thesis using pos
    by (cases "successor c") (auto simp: grown_def realloc_successor_def)
qed

lemma node_inv_cong:
  "instruction a = instruction b \<Longrightarrow> successor a = successor b \<Longrightarrow> nb_out a = nb_out b \<Longrightarrow>
   name a = name b \<Longrightarrow> node_inv n a = node_inv n b"
  by (simp add: node_inv_def succs_def)

lemma unat_succ_le: "unat (x + 1 :: 16 word) \<le> unat x + 1"
  by (simp add: unat_word_ariths)

lemma list_all_take_le: "m \<le> k \<Longrightarrow> list_all P (take k xs) \<Longrightarrow> list_all P (take m xs)"
  by (metis list_all_append min.absorb2 take_take append_take_drop_id min.commute)

lemma node_inv_edge:
  assumes inv: "node_inv n c" and new: "new < n"
    and basic: "type (instruction c) = BASIC \<Longrightarrow> nb_out c = 0"
    and branch: "type (instruction c) = BRANCH \<Longrightarrow> nb_out c = 0 \<or> nb_out c = 1"
  shows "node_inv n (c \<lparr> successor := (grown c)[unat (nb_out c) := Some new],
                          nb_out := nb_out c + 1 \<rparr>)"
proof -
  define k where "k = unat (nb_out c)"
  define arr where "arr = grown c"
  have le: "k \<le> length (successor c)" using inv by (simp add: node_inv_def k_def)
  have k_lt: "k < length arr" unfolding k_def arr_def using inv basic by (rule slot_in_range)
  have pow: "\<exists>j. length arr = 2 ^ j"
    unfolding arr_def using inv by (intro grown_length_pow2) (simp add: node_inv_def)
  have ge2: "type (instruction c) = BASIC \<or> 2 \<le> length arr"
  proof (cases "is_power_2 (nb_out c)")
    case True
    then show ?thesis using is_power_2_ge2[OF True] by (simp add: arr_def grown_def)
  next
    case False
    then show ?thesis using inv by (simp add: arr_def grown_def node_inv_def)
  qed
  have tk: "take k arr = succs c" unfolding k_def arr_def using le by (intro grown_take) (simp add: k_def)
  have tk1: "take (Suc k) (arr[k := Some new]) = succs c @ [Some new]"
    using k_lt tk by (simp add: take_Suc_conv_app_nth)
  have valid: "list_all (\<lambda>x. case x of None \<Rightarrow> False | Some q \<Rightarrow> q < n) (succs c)"
    using inv by (simp add: node_inv_def)
  have valid1: "list_all (\<lambda>x. case x of None \<Rightarrow> False | Some q \<Rightarrow> q < n)
                  (take (unat (nb_out c + 1)) (arr[k := Some new]))"
  proof (rule list_all_take_le[where k = "Suc k"])
    show "unat (nb_out c + 1) \<le> Suc k" using unat_succ_le[of "nb_out c"] by (simp add: k_def)
    show "list_all (\<lambda>x. case x of None \<Rightarrow> False | Some q \<Rightarrow> q < n) (take (Suc k) (arr[k := Some new]))"
      using valid new by (simp add: tk1)
  qed
  have hd_ok: "hd (arr[k := Some new]) \<noteq> None"
  proof (cases "k = 0")
    case True
    then show ?thesis using k_lt by (cases arr) auto
  next
    case False
    then have nz: "nb_out c \<noteq> 0" by (auto simp: k_def)
    then have "hd (successor c) \<noteq> None" using inv by (auto simp: node_inv_def)
    moreover have "hd arr = hd (successor c)"
      unfolding arr_def using le nz by (intro grown_hd) (simp_all add: k_def)
    ultimately show ?thesis using False k_lt by (cases arr) (auto simp: list_update_code split: nat.splits)
  qed
  have ty: "type (instruction c) = BASIC \<and> nb_out c + 1 = 1
        \<or> type (instruction c) = BRANCH \<and> (nb_out c + 1 = 1 \<or> nb_out c + 1 = 2)
        \<or> type (instruction c) = CALL \<or> type (instruction c) = JUMP
        \<or> type (instruction c) = RET"
    using basic branch by (cases "type (instruction c)") auto
  have nm: "name c = 0" using inv by (simp add: node_inv_def)
  have len: "unat (nb_out c + 1) \<le> length arr"
    using unat_succ_le[of "nb_out c"] k_lt by (simp add: k_def)
  show ?thesis
    unfolding node_inv_def succs_def
    using len pow ge2 valid1 hd_ok ty nm
    by (simp add: k_def[symmetric] arr_def[symmetric]) blast
qed

lemma list_all_node_inv_add_edge:
  assumes inv: "list_all (node_inv (length ns)) ns"
    and C: "C < length ns" and new: "new < length ns"
    and basic: "type (instruction (ns ! C)) = BASIC \<Longrightarrow> nb_out (ns ! C) = 0"
    and branch: "type (instruction (ns ! C)) = BRANCH \<Longrightarrow> nb_out (ns ! C) = 0 \<or> nb_out (ns ! C) = 1"
  shows "list_all (node_inv (length ns)) (add_edge ns C new)"
proof -
  have all: "\<And>p. p < length ns \<Longrightarrow> node_inv (length ns) (ns ! p)"
    using inv by (simp add: list_all_length)
  have zero: "\<And>p. p < length ns \<Longrightarrow> name (ns ! p) = 0"
    using all by (simp add: node_inv_def)
  have "node_inv (length ns) (add_edge ns C new ! p)" if p: "p < length ns" for p
  proof (cases "p = C")
    case True
    have "node_inv (length ns) (add_edge ns C new ! C) =
          node_inv (length ns) ((ns ! C) \<lparr> successor := (grown (ns ! C))[unat (nb_out (ns ! C)) := Some new],
                          nb_out := nb_out (ns ! C) + 1 \<rparr>)"
      using C by (intro node_inv_cong)
        (simp_all add: add_edge_instruction add_edge_successor add_edge_nb_out add_edge_name)
    then show ?thesis using node_inv_edge[OF all[OF C] new basic branch] True by simp
  next
    case False
    have "node_inv (length ns) (add_edge ns C new ! p) = node_inv (length ns) (ns ! p)"
      using p False zero[OF p] zero[OF C] by (intro node_inv_cong)
        (simp_all add: add_edge_instruction add_edge_successor add_edge_nb_out add_edge_name)
    then show ?thesis using all[OF p] by simp
  qed
  then show ?thesis by (simp add: list_all_length)
qed

subsection \<open>The branches of \<open>aux_cfg_insert\<close>\<close>

lemma has_successor_at_iff:
  "has_successor_at ns c a \<longleftrightarrow> (\<exists>q. Some q \<in> set (succs c) \<and> address (instruction (ns ! q)) = a)"
  by (auto simp: has_successor_at_def list_ex_iff split: option.splits)

lemma successor_scan_inv:
  "node_inv n c \<Longrightarrow>
   successor_scan ns (successor c) (unat (nb_out c)) a = Inr (has_successor_at ns c a)"
  by (simp add: successor_scan_node has_successor_at_iff)

lemma node_inv_nonempty: "node_inv n c \<Longrightarrow> successor c \<noteq> []"
  by (auto simp: node_inv_def)

lemma aux_unfold:
  assumes "node_inv n (nodes s ! CFG)"
  shows "aux_cfg_insert s CFG (Some new) =
     (if type (instruction (nodes s ! CFG)) \<noteq> RET \<and> hd (successor (nodes s ! CFG)) = None
      then (case install_edge (nodes s) CFG 0 new of
              Inl e \<Rightarrow> Inl e
            | Inr ns \<Rightarrow> Inr (Some new, s \<lparr> nodes := ns \<rparr>))
      else
        (case type (instruction (nodes s ! CFG)) of
           BASIC \<Rightarrow>
             if nb_out (nodes s ! CFG) \<ge> 1 then Inr (None, s)
             else Inr (Some new, s)
         | BRANCH \<Rightarrow>
             if nb_out (nodes s ! CFG) \<ge> 2 then Inr (None, s)
             else (case install_edge (nodes s) CFG 1 new of
                     Inl e \<Rightarrow> Inl e
                   | Inr ns \<Rightarrow> Inr (Some new, s \<lparr> nodes := ns \<rparr>))
         | CALL \<Rightarrow> Inr (Some new, s)
         | JUMP \<Rightarrow> append_successor s CFG new
         | RET \<Rightarrow>
             if stack s \<noteq> [] then
               (case stack_get_top (stack s) of
                  None \<Rightarrow> Inl NullDereference
                | Some top_cfg \<Rightarrow>
                    if ret_matches (nodes s) new top_cfg
                    then
                      (let s1 = s \<lparr> stack := stack_pop (stack s) \<rparr> in
                       case successor_scan (nodes s1) (successor (nodes s1 ! top_cfg))
                              (unat (nb_out (nodes s1 ! top_cfg)))
                              (address (instruction (nodes s1 ! new))) of
                         Inl e \<Rightarrow> Inl e
                       | Inr flag \<Rightarrow>
                           if flag then Inr (Some new, s1)
                           else append_successor s1 top_cfg new)
                    else append_successor s CFG new)
             else append_successor s CFG new))"
proof -
  obtain slot0 slots where "successor (nodes s ! CFG) = slot0 # slots"
    using node_inv_nonempty[OF assms] by (cases "successor (nodes s ! CFG)") auto
  then show ?thesis
    unfolding aux_cfg_insert_def aux_cfg_insert_switch_def ret_matches_def by simp
qed

lemma not_is_power_2_small [simp]: "\<not> is_power_2 0" "\<not> is_power_2 1"
  by (simp_all add: is_power_2.simps)

lemma aux_first_edge:
  assumes inv: "node_inv n (nodes s ! CFG)" and C: "CFG < length (nodes s)"
    and N: "new < length (nodes s)"
    and ty: "type (instruction (nodes s ! CFG)) \<noteq> RET"
    and hd: "hd (successor (nodes s ! CFG)) = None"
  shows "aux_cfg_insert s CFG (Some new) = Inr (Some new, s \<lparr> nodes := add_edge (nodes s) CFG new \<rparr>)"
proof -
  have z: "nb_out (nodes s ! CFG) = 0" using inv hd by (auto simp: node_inv_def)
  have "0 < length (successor (nodes s ! CFG))" using node_inv_nonempty[OF inv] by simp
  then have "install_edge (nodes s) CFG 0 new = Inr (add_edge (nodes s) CFG new)"
    using C N z by (intro install_edge_eq) simp_all
  then show ?thesis using ty hd by (simp add: aux_unfold[OF inv])
qed

lemma aux_basic_full:
  assumes inv: "node_inv n (nodes s ! CFG)"
    and ty: "type (instruction (nodes s ! CFG)) = BASIC"
    and full: "nb_out (nodes s ! CFG) \<noteq> 0"
  shows "aux_cfg_insert s CFG (Some new) = Inr (None, s)"
proof -
  have "nb_out (nodes s ! CFG) = 1" "hd (successor (nodes s ! CFG)) \<noteq> None"
    using inv ty full by (auto simp: node_inv_def)
  then show ?thesis using ty by (auto simp add: aux_unfold[OF inv])
qed

lemma aux_branch_full:
  assumes inv: "node_inv n (nodes s ! CFG)"
    and ty: "type (instruction (nodes s ! CFG)) = BRANCH"
    and full: "nb_out (nodes s ! CFG) = 2"
  shows "aux_cfg_insert s CFG (Some new) = Inr (None, s)"
proof -
  have "hd (successor (nodes s ! CFG)) \<noteq> None"
    using inv ty full by (auto simp: node_inv_def)
  then show ?thesis using ty full by (auto simp add: aux_unfold[OF inv])
qed

lemma aux_branch_second:
  assumes inv: "node_inv n (nodes s ! CFG)" and C: "CFG < length (nodes s)"
    and N: "new < length (nodes s)"
    and ty: "type (instruction (nodes s ! CFG)) = BRANCH"
    and one: "nb_out (nodes s ! CFG) = 1"
  shows "aux_cfg_insert s CFG (Some new) = Inr (Some new, s \<lparr> nodes := add_edge (nodes s) CFG new \<rparr>)"
proof -
  have hd: "hd (successor (nodes s ! CFG)) \<noteq> None"
    using inv ty one by (auto simp: node_inv_def)
  have "2 \<le> length (successor (nodes s ! CFG))" using inv ty by (auto simp: node_inv_def)
  then have "install_edge (nodes s) CFG 1 new = Inr (add_edge (nodes s) CFG new)"
    using C N one by (intro install_edge_eq) simp_all
  then show ?thesis using ty hd one by (auto simp add: aux_unfold[OF inv] word_le_nat_alt)
qed

lemma aux_call_taken:
  assumes inv: "node_inv n (nodes s ! CFG)"
    and ty: "type (instruction (nodes s ! CFG)) = CALL"
    and hd: "hd (successor (nodes s ! CFG)) \<noteq> None"
  shows "aux_cfg_insert s CFG (Some new) = Inr (Some new, s)"
  using ty hd by (auto simp add: aux_unfold[OF inv])

lemma append_successor_inv:
  assumes inv: "node_inv n (nodes s ! CFG)" and C: "CFG < length (nodes s)"
    and N: "new < length (nodes s)"
    and ty: "type (instruction (nodes s ! CFG)) \<noteq> BASIC"
  shows "append_successor s CFG new = Inr (Some new, s \<lparr> nodes := add_edge (nodes s) CFG new \<rparr>)"
  using C N by (intro append_successor_eq slot_in_range[OF inv]) (simp_all add: ty)

lemma aux_jump:
  assumes inv: "node_inv n (nodes s ! CFG)" and C: "CFG < length (nodes s)"
    and N: "new < length (nodes s)"
    and ty: "type (instruction (nodes s ! CFG)) = JUMP"
  shows "aux_cfg_insert s CFG (Some new) = Inr (Some new, s \<lparr> nodes := add_edge (nodes s) CFG new \<rparr>)"
proof (cases "hd (successor (nodes s ! CFG)) = None")
  case True
  then show ?thesis using aux_first_edge[OF inv C N] ty by simp
next
  case False
  then show ?thesis using ty append_successor_inv[OF inv C N]
    by (auto simp add: aux_unfold[OF inv])
qed

lemma aux_ret_unmatched:
  assumes inv: "node_inv n (nodes s ! CFG)" and C: "CFG < length (nodes s)"
    and N: "new < length (nodes s)"
    and ty: "type (instruction (nodes s ! CFG)) = RET"
    and un: "stack s = [] \<or> \<not> ret_matches (nodes s) new (hd (stack s))"
  shows "aux_cfg_insert s CFG (Some new) = Inr (Some new, s \<lparr> nodes := add_edge (nodes s) CFG new \<rparr>)"
proof -
  have app: "append_successor s CFG new = Inr (Some new, s \<lparr> nodes := add_edge (nodes s) CFG new \<rparr>)"
    using ty by (intro append_successor_inv[OF inv C N]) simp
  show ?thesis
  proof (cases "stack s")
    case Nil
    then show ?thesis using ty app by (simp add: aux_unfold[OF inv])
  next
    case (Cons t rest)
    then have "\<not> ret_matches (nodes s) new t" using un by simp
    then show ?thesis using ty app Cons by (simp add: aux_unfold[OF inv] stack_get_top_def)
  qed
qed

lemma aux_ret_matched:
  assumes inv: "node_inv n (nodes s ! CFG)"
    and N: "new < length (nodes s)"
    and ty: "type (instruction (nodes s ! CFG)) = RET"
    and st: "stack s = t # rest" and m: "ret_matches (nodes s) new t"
    and invt: "node_inv n (nodes s ! t)" and T: "t < length (nodes s)"
    and tyt: "type (instruction (nodes s ! t)) \<noteq> BASIC"
  shows "aux_cfg_insert s CFG (Some new) =
     (if has_successor_at (nodes s) (nodes s ! t) (address (instruction (nodes s ! new)))
      then Inr (Some new, s \<lparr> stack := rest \<rparr>)
      else Inr (Some new, s \<lparr> stack := rest, nodes := add_edge (nodes s) t new \<rparr>))"
proof -
  have app: "append_successor (s \<lparr> stack := rest \<rparr>) t new
      = Inr (Some new, s \<lparr> stack := rest, nodes := add_edge (nodes s) t new \<rparr>)"
    using append_successor_inv[of n "s \<lparr> stack := rest \<rparr>" t new] invt T N tyt by simp
  show ?thesis
    using ty st m app
    by (simp add: aux_unfold[OF inv] stack_get_top_def stack_pop_def Let_def
        successor_scan_inv[OF invt])
qed

lemma state_inv_node:
  "state_inv s \<Longrightarrow> p < length (nodes s) \<Longrightarrow> node_inv (length (nodes s)) (nodes s ! p)"
  by (simp add: state_inv_def heap_inv_def list_all_length)

lemma state_inv_stack:
  "state_inv s \<Longrightarrow> stack s = t # rest \<Longrightarrow>
   t < length (nodes s) \<and> type (instruction (nodes s ! t)) = CALL"
  by (simp add: state_inv_def heap_inv_def)

lemma aux_cfg_insert_cases [consumes 3, case_names full call edge ret_found ret_edge]:
  assumes inv: "state_inv s" and C: "CFG < length (nodes s)" and N: "new < length (nodes s)"
  obtains
    (full) "aux_cfg_insert s CFG (Some new) = Inr (None, s)"
      "type (instruction (nodes s ! CFG)) = BASIC \<and> nb_out (nodes s ! CFG) = 1
       \<or> type (instruction (nodes s ! CFG)) = BRANCH \<and> nb_out (nodes s ! CFG) = 2"
  | (call) "aux_cfg_insert s CFG (Some new) = Inr (Some new, s)"
      "type (instruction (nodes s ! CFG)) = CALL"
      "hd (successor (nodes s ! CFG)) \<noteq> None"
  | (edge) "aux_cfg_insert s CFG (Some new)
        = Inr (Some new, s \<lparr> nodes := add_edge (nodes s) CFG new \<rparr>)"
      "type (instruction (nodes s ! CFG)) = BASIC \<Longrightarrow> nb_out (nodes s ! CFG) = 0"
      "type (instruction (nodes s ! CFG)) = BRANCH \<Longrightarrow>
         nb_out (nodes s ! CFG) = 0 \<or> nb_out (nodes s ! CFG) = 1"
      "type (instruction (nodes s ! CFG)) = CALL \<Longrightarrow> nb_out (nodes s ! CFG) = 0"
      "type (instruction (nodes s ! CFG)) = RET \<Longrightarrow>
         stack s = [] \<or> \<not> ret_matches (nodes s) new (hd (stack s))"
  | (ret_found) t rest where "stack s = t # rest"
      "type (instruction (nodes s ! CFG)) = RET" "ret_matches (nodes s) new t"
      "has_successor_at (nodes s) (nodes s ! t) (address (instruction (nodes s ! new)))"
      "aux_cfg_insert s CFG (Some new) = Inr (Some new, s \<lparr> stack := rest \<rparr>)"
  | (ret_edge) t rest where "stack s = t # rest"
      "type (instruction (nodes s ! CFG)) = RET" "ret_matches (nodes s) new t"
      "\<not> has_successor_at (nodes s) (nodes s ! t) (address (instruction (nodes s ! new)))"
      "aux_cfg_insert s CFG (Some new)
        = Inr (Some new, s \<lparr> stack := rest, nodes := add_edge (nodes s) t new \<rparr>)"
proof -
  let ?c = "nodes s ! CFG"
  note ninv = state_inv_node[OF inv C]
  show thesis
  proof (cases "type (instruction ?c) = RET")
    case True
    show thesis
    proof (cases "stack s = [] \<or> \<not> ret_matches (nodes s) new (hd (stack s))")
      case un: True
      show thesis
        using aux_ret_unmatched[OF ninv C N True un] True un by (intro edge) simp_all
    next
      case False
      then obtain t rest where st: "stack s = t # rest" and m: "ret_matches (nodes s) new t"
        by (cases "stack s") auto
      note T = state_inv_stack[OF inv st]
      have tinv: "node_inv (length (nodes s)) (nodes s ! t)" using T inv by (simp add: state_inv_node)
      have tb: "type (instruction (nodes s ! t)) \<noteq> BASIC" using T by simp
      note r = aux_ret_matched[OF ninv N True st m tinv conjunct1[OF T] tb]
      show thesis
      proof (cases "has_successor_at (nodes s) (nodes s ! t) (address (instruction (nodes s ! new)))")
        case f: True
        show thesis using r f by (intro ret_found[OF st True m f]) simp
      next
        case f: False
        show thesis using r f by (intro ret_edge[OF st True m f]) simp
      qed
    qed
  next
    case notret: False
    show thesis
    proof (cases "hd (successor ?c) = None")
      case True
      have z: "nb_out ?c = 0" using ninv True by (auto simp: node_inv_def)
      show thesis
        using aux_first_edge[OF ninv C N notret True] z notret by (intro edge) simp_all
    next
      case taken: False
      show thesis
      proof (cases "type (instruction ?c)")
        case BASIC
        have one: "nb_out ?c = 1" using ninv BASIC taken by (auto simp: node_inv_def)
        then have "nb_out ?c \<noteq> 0" by simp
        from aux_basic_full[OF ninv BASIC this] show thesis using BASIC one by (intro full) simp_all
      next
        case BRANCH
        have "nb_out ?c = 1 \<or> nb_out ?c = 2" using ninv BRANCH taken by (auto simp: node_inv_def)
        then show thesis
        proof
          assume one: "nb_out ?c = 1"
          show thesis using aux_branch_second[OF ninv C N BRANCH one] BRANCH one
            by (intro edge) simp_all
        next
          assume two: "nb_out ?c = 2"
          show thesis using aux_branch_full[OF ninv BRANCH two] BRANCH two
            by (intro full) simp_all
        qed
      next
        case CALL
        show thesis using aux_call_taken[OF ninv CALL taken] CALL taken by (intro call) simp_all
      next
        case JUMP
        show thesis using aux_jump[OF ninv C N JUMP] JUMP by (intro edge) simp_all
      next
        case RET
        then show thesis using notret by simp
      qed
    qed
  qed
qed

subsection \<open>The table\<close>

lemma bucket_scan_None_iff:
  "bucket_scan ns ps a = None \<longleftrightarrow> (\<forall>p \<in> set ps. address (instruction (ns ! p)) \<noteq> a)"
  by (induction ps) auto

lemma bucket_scan_Some:
  "bucket_scan ns ps a = Some p \<Longrightarrow> p \<in> set ps \<and> address (instruction (ns ! p)) = a"
  by (induction ps) (auto split: if_splits)

lemma bucket_scan_distinct:
  "distinct (map (\<lambda>p. address (instruction (ns ! p))) ps) \<Longrightarrow> p \<in> set ps \<Longrightarrow>
   bucket_scan ns ps (address (instruction (ns ! p))) = Some p"
  by (induction ps) auto

lemma bucket_scan_cong:
  "(\<And>p. p \<in> set ps \<Longrightarrow> instruction (ns' ! p) = instruction (ns ! p)) \<Longrightarrow>
   bucket_scan ns' ps a = bucket_scan ns ps a"
  by (induction ps) auto

lemma bucket_index_size: "size_h h' = size_h h \<Longrightarrow> bucket_index h' i = bucket_index h i"
  by (simp add: bucket_index_def)

lemma hashtable_lookup_stored:
  assumes "ht_inv ns h" "p \<in> set (buckets h i)"
  shows "hashtable_lookup ns (Some h) (instruction (ns ! p)) = Some p"
proof -
  have i: "bucket_index h (instruction (ns ! p)) = i" using assms by (auto simp: ht_inv_def)
  have d: "distinct (map (\<lambda>p. address (instruction (ns ! p))) (buckets h i))"
    using assms by (auto simp: ht_inv_def)
  have "buckets h i \<noteq> []" using assms(2) by auto
  then show ?thesis
    using bucket_scan_distinct[OF d assms(2)] i by (simp add: hashtable_lookup_def)
qed

lemma hashtable_lookup_node:
  assumes "ht_inv ns h" "p < length ns"
  shows "hashtable_lookup ns (Some h) (instruction (ns ! p)) = Some p"
proof -
  have "p \<in> set (buckets h (bucket_index h (instruction (ns ! p))))"
    using assms by (auto simp: ht_inv_def)
  then show ?thesis by (rule hashtable_lookup_stored[OF assms(1)])
qed

lemma hashtable_lookup_Some:
  assumes "ht_inv ns h" "hashtable_lookup ns (Some h) ins = Some p"
  shows "p < length ns \<and> address (instruction (ns ! p)) = address ins
         \<and> p \<in> set (buckets h (bucket_index h ins))"
proof -
  have "bucket_scan ns (buckets h (bucket_index h ins)) (address ins) = Some p"
    using assms(2) by (auto simp: hashtable_lookup_def Let_def split: if_splits)
  from bucket_scan_Some[OF this] show ?thesis using assms(1) by (auto simp: ht_inv_def)
qed

lemma hashtable_lookup_None:
  assumes "hashtable_lookup ns (Some h) ins = None"
  shows "bucket_scan ns (buckets h (bucket_index h ins)) (address ins) = None"
  using assms by (auto simp: hashtable_lookup_def Let_def split: if_splits)

lemma ht_inv_instr:
  assumes "ht_inv ns h" "length ns' = length ns"
    and "\<And>p. p < length ns \<Longrightarrow> instruction (ns' ! p) = instruction (ns ! p)"
  shows "ht_inv ns' h"
proof -
  have v: "\<And>i p. p \<in> set (buckets h i) \<Longrightarrow> p < length ns" using assms(1) by (auto simp: ht_inv_def)
  have m: "map (\<lambda>p. address (instruction (ns' ! p))) (buckets h i)
      = map (\<lambda>p. address (instruction (ns ! p))) (buckets h i)" for i
    using v assms(3) by (intro map_cong) auto
  have c1: "size_h h \<noteq> 0" using assms(1) by (simp add: ht_inv_def)
  have c2: "\<forall>i. \<forall>p \<in> set (buckets h i). p < length ns' \<and> bucket_index h (instruction (ns' ! p)) = i"
    using assms by (auto simp: ht_inv_def)
  have c3: "\<forall>i. distinct (map (\<lambda>p. address (instruction (ns' ! p))) (buckets h i))"
    unfolding m using assms(1) by (simp add: ht_inv_def)
  have c4: "\<forall>p < length ns'. p \<in> set (buckets h (bucket_index h (instruction (ns' ! p))))"
    using assms by (auto simp: ht_inv_def)
  show ?thesis unfolding ht_inv_def using c1 c2 c3 c4 by blast
qed

lemma hashtable_lookup_instr:
  assumes "ht_inv ns h" "length ns' = length ns"
    and "\<And>p. p < length ns \<Longrightarrow> instruction (ns' ! p) = instruction (ns ! p)"
  shows "hashtable_lookup ns' (Some h) ins = hashtable_lookup ns (Some h) ins"
proof -
  have v: "\<And>i p. p \<in> set (buckets h i) \<Longrightarrow> p < length ns" using assms(1) by (auto simp: ht_inv_def)
  have "bucket_scan ns' (buckets h i) a = bucket_scan ns (buckets h i) a" for i a
    using v assms(3) by (intro bucket_scan_cong) auto
  then show ?thesis by (simp add: hashtable_lookup_def Let_def)
qed

text \<open>Entering a fresh node whose instruction the table does not hold.\<close>

lemma hashtable_insert_fresh:
  assumes inv: "ht_inv ns h" and none: "hashtable_lookup ns (Some h) (instruction node) = None"
  shows "\<exists>h'. hashtable_insert (ns @ [node]) (Some h) (length ns) = (True, Some h')
           \<and> ht_inv (ns @ [node]) h' \<and> size_h h' = size_h h
           \<and> buckets h' = (buckets h)(bucket_index h (instruction node) :=
                 buckets h (bucket_index h (instruction node)) @ [length ns])
           \<and> entries h' = entries h + 1"
proof -
  let ?i = "bucket_index h (instruction node)"
  let ?ns = "ns @ [node]"
  let ?b = "(buckets h)(?i := buckets h ?i @ [length ns])"
  have v: "\<And>i p. p \<in> set (buckets h i) \<Longrightarrow> p < length ns \<and> bucket_index h (instruction (ns ! p)) = i"
    using inv by (auto simp: ht_inv_def)
  have old: "\<And>p. p < length ns \<Longrightarrow> ?ns ! p = ns ! p" by (simp add: nth_append)
  have sc: "bucket_scan ?ns (buckets h ?i) a = bucket_scan ns (buckets h ?i) a" for a
    using v by (intro bucket_scan_cong) (auto simp: nth_append)
  have sn: "bucket_scan ns (buckets h ?i) (address (instruction node)) = None"
    using none by (rule hashtable_lookup_None)
  define h' where "h' = (if buckets h ?i = []
      then h \<lparr> buckets := (buckets h)(?i := [length ns]), entries := entries h + 1 \<rparr>
      else h \<lparr> collisions := collisions h + 1, entries := entries h + 1,
                buckets := (buckets h)(?i := buckets h ?i @ [length ns]) \<rparr>)"
  have ins: "hashtable_insert ?ns (Some h) (length ns) = (True, Some h')"
    using sn sc by (simp add: hashtable_insert_def Let_def h'_def)
  have sz: "size_h h' = size_h h" by (simp add: h'_def)
  have bk: "buckets h' = ?b" by (auto simp: h'_def)
  have en: "entries h' = entries h + 1" by (simp add: h'_def)
  have bi: "bucket_index h' x = bucket_index h x" for x using sz by (rule bucket_index_size)
  have c1: "size_h h' \<noteq> 0" using inv sz by (simp add: ht_inv_def)
  have c2: "p < length ?ns \<and> bucket_index h' (instruction (?ns ! p)) = i"
    if "p \<in> set (buckets h' i)" for i p
  proof (cases "p = length ns")
    case True
    have "i = ?i"
    proof (rule ccontr)
      assume "i \<noteq> ?i"
      then have "p \<in> set (buckets h i)" using that by (simp add: bk)
      then show False using v True by auto
    qed
    then show ?thesis using True by (simp add: bi)
  next
    case False
    then have "p \<in> set (buckets h i)" using that by (auto simp: bk split: if_splits)
    then show ?thesis using v[of p i] by (simp add: bi nth_append)
  qed
  have c3: "distinct (map (\<lambda>p. address (instruction (?ns ! p))) (buckets h' i))" for i
  proof -
    have m: "map (\<lambda>p. address (instruction (?ns ! p))) (buckets h j)
           = map (\<lambda>p. address (instruction (ns ! p))) (buckets h j)" for j
      using v by (intro map_cong) (auto simp: nth_append)
    have d: "distinct (map (\<lambda>p. address (instruction (ns ! p))) (buckets h j))" for j
      using inv by (auto simp: ht_inv_def)
    show ?thesis
    proof (cases "i = ?i")
      case True
      have "address (instruction node) \<notin> (\<lambda>p. address (instruction (ns ! p))) ` set (buckets h ?i)"
        using sn by (auto simp: bucket_scan_None_iff)
      then have "distinct (map (\<lambda>p. address (instruction (ns ! p))) (buckets h ?i)
                  @ [address (instruction node)])"
        using d[of ?i] by simp
      then show ?thesis using True by (simp add: bk m)
    next
      case False
      then show ?thesis using d[of i] by (simp add: bk m)
    qed
  qed
  have c4: "p \<in> set (buckets h' (bucket_index h' (instruction (?ns ! p))))" if "p < length ?ns" for p
  proof (cases "p = length ns")
    case True
    then show ?thesis by (simp add: bi bk)
  next
    case False
    then have p: "p < length ns" using that by simp
    then have "p \<in> set (buckets h (bucket_index h (instruction (ns ! p))))"
      using inv by (auto simp: ht_inv_def)
    then show ?thesis using p by (auto simp: bi bk nth_append)
  qed
  have "ht_inv ?ns h'" unfolding ht_inv_def using c1 c2 c3 c4 by blast
  then show ?thesis using ins sz bk en by blast
qed

subsection \<open>The invariant is kept\<close>

lemma heap_inv_add_edge:
  assumes inv: "heap_inv s" and C: "C < length (nodes s)" and N: "new < length (nodes s)"
    and basic: "type (instruction (nodes s ! C)) = BASIC \<Longrightarrow> nb_out (nodes s ! C) = 0"
    and branch: "type (instruction (nodes s ! C)) = BRANCH \<Longrightarrow>
                   nb_out (nodes s ! C) = 0 \<or> nb_out (nodes s ! C) = 1"
  shows "heap_inv (s \<lparr> nodes := add_edge (nodes s) C new \<rparr>)"
proof -
  obtain h where h: "ht s = Some h" "ht_inv (nodes s) h" using inv by (auto simp: heap_inv_def)
  have 1: "ht_inv (add_edge (nodes s) C new) h"
    using h(2) by (rule ht_inv_instr) (simp_all add: add_edge_instruction)
  have 2: "list_all (node_inv (length (nodes s))) (add_edge (nodes s) C new)"
    using inv C N basic branch by (intro list_all_node_inv_add_edge) (simp_all add: heap_inv_def)
  have 3: "list_all (\<lambda>p. p < length (nodes s) \<and> type (instruction (add_edge (nodes s) C new ! p)) = CALL) (stack s)"
    using inv by (auto simp: heap_inv_def list_all_iff add_edge_instruction)
  have 4: "list_all (\<lambda>p. p < length (nodes s)) (first_entry s)"
    using inv by (simp add: heap_inv_def)
  show ?thesis unfolding heap_inv_def using h(1) 1 2 3 4 by simp
qed

lemma heap_inv_stack_pop:
  "heap_inv s \<Longrightarrow> stack s = t # rest \<Longrightarrow> heap_inv (s \<lparr> stack := rest \<rparr>)"
  by (simp add: heap_inv_def)

lemma heap_inv_stack_push:
  "heap_inv s \<Longrightarrow> P < length (nodes s) \<Longrightarrow> type (instruction (nodes s ! P)) = CALL \<Longrightarrow>
   heap_inv (s \<lparr> stack := stack_push (stack s) P \<rparr>)"
  by (simp add: heap_inv_def stack_push_def)

lemma heap_inv_roster:
  "heap_inv s \<Longrightarrow> p < length (nodes s) \<Longrightarrow>
   heap_inv (s \<lparr> first_entry := list_insert_after_tail (first_entry s) p \<rparr>)"
  by (simp add: heap_inv_def list_insert_after_tail_def)

lemma state_inv_heap: "state_inv s \<Longrightarrow> heap_inv s"
  by (simp add: state_inv_def)

lemma node_inv_mono: "node_inv n c \<Longrightarrow> n \<le> m \<Longrightarrow> node_inv m c"
  by (auto simp: node_inv_def list_all_iff split: option.splits)

text \<open>The node \<open>cfg_new\<close> allocates.\<close>

lemma cfg_new_fresh:
  assumes inv: "heap_inv s" and none: "hashtable_lookup (nodes s) (ht s) ins = None"
  shows "\<exists>node s1. cfg_new s ins str = (length (nodes s), s1)
           \<and> nodes s1 = nodes s @ [node] \<and> instruction node = ins
           \<and> nb_in node = 0 \<and> nb_out node = 0 \<and> name node = 0 \<and> str_graph node = str
           \<and> successor node = (if type ins = BASIC then [None] else [None, None])
           \<and> stack s1 = stack s \<and> first_entry s1 = first_entry s \<and> cur_cfg s1 = cur_cfg s
           \<and> heap_inv s1"
proof -
  obtain h where h: "ht s = Some h" "ht_inv (nodes s) h" using inv by (auto simp: heap_inv_def)
  define node where "node = \<lparr> instruction = ins, nb_in = 0, nb_out = 0, name = 0,
      str_graph = str, successor = (if type ins = BASIC then [None] else [None, None]) \<rparr>"
  have i: "instruction node = ins" by (simp add: node_def)
  obtain h' where h': "hashtable_insert (nodes s @ [node]) (Some h) (length (nodes s)) = (True, Some h')"
      "ht_inv (nodes s @ [node]) h'"
    using hashtable_insert_fresh[OF h(2), of node] none h(1) i by auto
  define s1 where "s1 = s \<lparr> nodes := nodes s @ [node], ht := Some h' \<rparr>"
  have eq: "cfg_new s ins str = (length (nodes s), s1)"
    using h' h(1) by (simp add: cfg_new_def Let_def node_def s1_def)
  have ni: "node_inv (Suc (length (nodes s))) node"
    by (cases "type ins") (auto simp: node_inv_def node_def succs_def intro: exI[of _ 0] exI[of _ 1])
  have old: "list_all (node_inv (Suc (length (nodes s)))) (nodes s)"
    using inv by (auto simp: heap_inv_def list_all_iff intro: node_inv_mono)
  have st: "list_all (\<lambda>p. p < Suc (length (nodes s))
              \<and> type (instruction ((nodes s @ [node]) ! p)) = CALL) (stack s)"
    using inv by (auto simp: heap_inv_def list_all_iff nth_append)
  have ro: "list_all (\<lambda>p. p < Suc (length (nodes s))) (first_entry s)"
    using inv by (auto simp: heap_inv_def list_all_iff)
  have "heap_inv s1"
    unfolding heap_inv_def using h'(2) ni old st ro by (simp add: s1_def)
  then show ?thesis using eq by (intro exI[of _ node] exI[of _ s1]) (simp add: s1_def node_def)
qed

lemma cfg_insert_unfold:
  assumes inv: "state_inv s" and P: "P < length (nodes s)"
  shows "cfg_insert s (Some P) ins str =
     (case hashtable_lookup (nodes s) (ht s) ins of
        None \<Rightarrow> aux_cfg_insert (prep_new s P ins str) P (Some (length (nodes s)))
      | Some new \<Rightarrow>
          if has_successor_at (nodes s) (nodes s ! P) (address (instruction (nodes s ! new)))
          then Inr (Some new, prep_known s P)
          else aux_cfg_insert (prep_known s P) P (Some new))"
proof (cases "hashtable_lookup (nodes s) (ht s) ins")
  case None
  obtain node s1 where n: "cfg_new s ins str = (length (nodes s), s1)"
    using cfg_new_fresh[OF state_inv_heap[OF inv] None, of str] by blast
  show ?thesis using None n by (simp add: cfg_insert_def prep_new_def Let_def)
next
  case (Some new)
  have sc: "successor_scan (nodes s) (successor (nodes s ! P)) (unat (nb_out (nodes s ! P))) a
      = Inr (has_successor_at (nodes s) (nodes s ! P) a)" for a
    using state_inv_node[OF inv P] by (rule successor_scan_inv)
  show ?thesis using Some sc by (simp add: cfg_insert_def prep_known_def Let_def)
qed

lemma prep_known_props:
  assumes inv: "state_inv s" and P: "P < length (nodes s)"
  shows "state_inv (prep_known s P)" "nodes (prep_known s P) = nodes s"
    "ht (prep_known s P) = ht s" "first_entry (prep_known s P) = first_entry s"
    "cur_cfg (prep_known s P) = cur_cfg s"
    "stack (prep_known s P) = (if type (instruction (nodes s ! P)) = CALL
        then stack_push (stack s) P else stack s)"
proof -
  show "state_inv (prep_known s P)"
    using inv P heap_inv_stack_push[of s P]
    by (auto simp: prep_known_def state_inv_def split: option.splits)
qed (simp_all add: prep_known_def)

lemma prep_new_props:
  assumes inv: "state_inv s" and P: "P < length (nodes s)"
    and none: "hashtable_lookup (nodes s) (ht s) ins = None"
  shows "\<exists>node. nodes (prep_new s P ins str) = nodes s @ [node] \<and> instruction node = ins
           \<and> nb_in node = 0 \<and> nb_out node = 0 \<and> name node = 0 \<and> str_graph node = str
           \<and> successor node = (if type ins = BASIC then [None] else [None, None])
           \<and> state_inv (prep_new s P ins str)
           \<and> cur_cfg (prep_new s P ins str) = cur_cfg s
           \<and> stack (prep_new s P ins str) = (if type (instruction (nodes s ! P)) = CALL
                then stack_push (stack s) P else stack s)
           \<and> first_entry (prep_new s P ins str) = (if type (instruction (nodes s ! P)) = CALL
                then list_insert_after_tail (first_entry s) (length (nodes s)) else first_entry s)"
proof -
  obtain node s1 where n: "cfg_new s ins str = (length (nodes s), s1)"
      "nodes s1 = nodes s @ [node]" "instruction node = ins"
      "nb_in node = 0" "nb_out node = 0" "name node = 0" "str_graph node = str"
      "successor node = (if type ins = BASIC then [None] else [None, None])"
      "stack s1 = stack s" "first_entry s1 = first_entry s" "cur_cfg s1 = cur_cfg s"
      "heap_inv s1"
    using cfg_new_fresh[OF state_inv_heap[OF inv] none, of str] by blast
  have ty: "type (instruction (nodes s1 ! P)) = type (instruction (nodes s ! P))"
    using P n(2) by (simp add: nth_append)
  have P1: "P < length (nodes s1)" using P n(2) by simp
  have N1: "length (nodes s) < length (nodes s1)" using n(2) by simp
  have cur: "cur_cfg s \<noteq> None" using inv P by (auto simp: state_inv_def split: option.splits)
  have cv: "case cur_cfg s of None \<Rightarrow> False | Some p \<Rightarrow> p < length (nodes s1)"
    using inv cur n(2) by (auto simp: state_inv_def split: option.splits)
  show ?thesis
  proof (cases "type (instruction (nodes s ! P)) = CALL")
    case True
    have e: "prep_new s P ins str = s1 \<lparr> first_entry := list_insert_after_tail (first_entry s1) (length (nodes s)),
                   stack := stack_push (stack s1) P \<rparr>"
      using True ty n(1) by (simp add: prep_new_def Let_def)
    have "heap_inv (s1 \<lparr> first_entry := list_insert_after_tail (first_entry s1) (length (nodes s)) \<rparr>)"
      using n(12) N1 by (rule heap_inv_roster)
    then have "heap_inv (prep_new s P ins str)"
      using heap_inv_stack_push[of "s1 \<lparr> first_entry := list_insert_after_tail (first_entry s1) (length (nodes s)) \<rparr>" P]
        P1 True ty by (simp add: e)
    then have "state_inv (prep_new s P ins str)"
      using cv n(11) by (auto simp: state_inv_def e split: option.splits)
    then show ?thesis using n True by (intro exI[of _ node]) (simp add: e)
  next
    case False
    have e: "prep_new s P ins str = s1"
      using False ty n(1) by (simp add: prep_new_def Let_def)
    have "state_inv (prep_new s P ins str)"
      using cv n(11) n(12) by (auto simp: state_inv_def e split: option.splits)
    then show ?thesis using n False by (intro exI[of _ node]) (simp add: e)
  qed
qed

lemma state_inv_add_edge:
  assumes inv: "state_inv s" and C: "C < length (nodes s)" and N: "new < length (nodes s)"
    and basic: "type (instruction (nodes s ! C)) = BASIC \<Longrightarrow> nb_out (nodes s ! C) = 0"
    and branch: "type (instruction (nodes s ! C)) = BRANCH \<Longrightarrow>
                   nb_out (nodes s ! C) = 0 \<or> nb_out (nodes s ! C) = 1"
  shows "state_inv (s \<lparr> nodes := add_edge (nodes s) C new \<rparr>)"
proof -
  have "heap_inv (s \<lparr> nodes := add_edge (nodes s) C new \<rparr>)"
    using state_inv_heap[OF inv] C N basic branch by (rule heap_inv_add_edge)
  then show ?thesis using inv C by (auto simp: state_inv_def split: option.splits)
qed

lemma state_inv_stack_pop:
  "state_inv s \<Longrightarrow> stack s = t # rest \<Longrightarrow> state_inv (s \<lparr> stack := rest \<rparr>)"
  using heap_inv_stack_pop[of s t rest] by (auto simp: state_inv_def split: option.splits)

lemma aux_cfg_insert_state_inv:
  assumes inv: "state_inv s" and C: "CFG < length (nodes s)" and N: "new < length (nodes s)"
  shows "\<exists>r s'. aux_cfg_insert s CFG (Some new) = Inr (r, s') \<and> state_inv s'
           \<and> (r = None \<or> r = Some new) \<and> length (nodes s') = length (nodes s)
           \<and> cur_cfg s' = cur_cfg s \<and> ht s' = ht s \<and> first_entry s' = first_entry s
           \<and> (\<forall>p < length (nodes s). instruction (nodes s' ! p) = instruction (nodes s ! p))"
  using inv C N
proof (cases rule: aux_cfg_insert_cases)
  case full
  then show ?thesis using inv by simp
next
  case call
  then show ?thesis using inv by simp
next
  case edge
  have "state_inv (s \<lparr> nodes := add_edge (nodes s) CFG new \<rparr>)"
    using inv C N edge(2,3) by (rule state_inv_add_edge)
  then show ?thesis using edge(1) by (simp add: add_edge_instruction)
next
  case (ret_found t rest)
  then show ?thesis using state_inv_stack_pop[OF inv ret_found(1)] by simp
next
  case (ret_edge t rest)
  note T = state_inv_stack[OF inv ret_edge(1)]
  have "state_inv (s \<lparr> stack := rest \<rparr>)" using inv ret_edge(1) by (rule state_inv_stack_pop)
  then have "state_inv (s \<lparr> stack := rest \<rparr> \<lparr> nodes := add_edge (nodes (s \<lparr> stack := rest \<rparr>)) t new \<rparr>)"
    using T N by (intro state_inv_add_edge) simp_all
  then show ?thesis using ret_edge(5) by (simp add: add_edge_instruction)
qed

lemma state_inv_cur: "state_inv s \<Longrightarrow> cur_cfg s = Some P \<Longrightarrow> P < length (nodes s)"
  by (simp add: state_inv_def)

lemma cfg_insert_state_inv:
  assumes inv: "state_inv s" and cur: "cur_cfg s = Some P"
  shows "\<exists>r s'. cfg_insert s (Some P) ins str = Inr (r, s') \<and> state_inv s'
           \<and> (case r of None \<Rightarrow> True | Some n \<Rightarrow> n < length (nodes s'))
           \<and> cur_cfg s' = cur_cfg s"
proof -
  note P = state_inv_cur[OF inv cur]
  obtain h where h: "ht s = Some h" "ht_inv (nodes s) h"
    using inv by (auto simp: state_inv_def heap_inv_def)
  show ?thesis
  proof (cases "hashtable_lookup (nodes s) (ht s) ins")
    case None
    obtain node where n: "nodes (prep_new s P ins str) = nodes s @ [node]"
        "state_inv (prep_new s P ins str)" "cur_cfg (prep_new s P ins str) = cur_cfg s"
      using prep_new_props[OF inv P None, of str] by blast
    have "\<exists>r s'. aux_cfg_insert (prep_new s P ins str) P (Some (length (nodes s))) = Inr (r, s')
           \<and> state_inv s' \<and> (r = None \<or> r = Some (length (nodes s)))
           \<and> length (nodes s') = length (nodes (prep_new s P ins str))
           \<and> cur_cfg s' = cur_cfg (prep_new s P ins str)"
      using aux_cfg_insert_state_inv[OF n(2), of P "length (nodes s)"] P n(1) by auto
    then show ?thesis using None n(1,3) by (auto simp: cfg_insert_unfold[OF inv P])
  next
    case (Some new)
    have N: "new < length (nodes s)" using hashtable_lookup_Some[OF h(2)] Some h(1) by auto
    note k = prep_known_props[OF inv P]
    have "\<exists>r s'. aux_cfg_insert (prep_known s P) P (Some new) = Inr (r, s')
           \<and> state_inv s' \<and> (r = None \<or> r = Some new)
           \<and> length (nodes s') = length (nodes (prep_known s P))
           \<and> cur_cfg s' = cur_cfg (prep_known s P)"
      using aux_cfg_insert_state_inv[OF k(1), of P new] P N k(2) by auto
    then show ?thesis using Some N k by (auto simp: cfg_insert_unfold[OF inv P])
  qed
qed

lemma ht_inv_empty_lookup:
  assumes "ht_inv [] h"
  shows "hashtable_lookup [] (Some h) ins = None"
proof -
  have "buckets h i = []" for i using assms by (cases "buckets h i") (auto simp: ht_inv_def)
  then show ?thesis by (simp add: hashtable_lookup_def)
qed

lemma observe_first:
  assumes inv: "state_inv s" and cur: "cur_cfg s = None"
    and i: "instr_new (ip ob) (insn_size ob) (Some (buf ob)) = Some instr"
  shows "\<exists>s'. observe s ob = Inr s' \<and> state_inv s' \<and> cur_cfg s' = Some 0
           \<and> first_entry s' = [0] \<and> length (nodes s') = 1 \<and> stack s' = stack s"
proof -
  have e: "nodes s = []" "first_entry s = []" using inv cur by (simp_all add: state_inv_def)
  obtain h where h: "ht s = Some h" "ht_inv (nodes s) h"
    using inv by (auto simp: state_inv_def heap_inv_def)
  have none: "hashtable_lookup (nodes s) (ht s) instr = None"
    using h e ht_inv_empty_lookup by simp
  obtain node s1 where n: "cfg_new s instr (name_node ob) = (length (nodes s), s1)"
      "nodes s1 = nodes s @ [node]" "stack s1 = stack s" "heap_inv s1"
    using cfg_new_fresh[OF state_inv_heap[OF inv] none, of "name_node ob"] by blast
  have "heap_inv (s1 \<lparr> cur_cfg := Some 0, first_entry := [0] \<rparr>)"
    using n(2,4) e by (simp add: heap_inv_def)
  then have "state_inv (s1 \<lparr> cur_cfg := Some 0, first_entry := [0] \<rparr>)"
    using n(2) e by (simp add: state_inv_def)
  then show ?thesis using i cur n e by (simp add: observe_def)
qed

lemma observe_later:
  assumes inv: "state_inv s" and cur: "cur_cfg s = Some P"
    and i: "instr_new (ip ob) (insn_size ob) (Some (buf ob)) = Some instr"
  shows "observe s ob =
     (case cfg_insert s (Some P) instr (name_node ob) of
        Inl e \<Rightarrow> Inl e
      | Inr (None, s1) \<Rightarrow> Inl CannotCreateCFG
      | Inr (Some cfg, s1) \<Rightarrow> Inr (s1 \<lparr> cur_cfg := Some cfg \<rparr>))"
  using i cur by (simp add: observe_def)

lemma state_inv_set_cur:
  "state_inv s \<Longrightarrow> n < length (nodes s) \<Longrightarrow> state_inv (s \<lparr> cur_cfg := Some n \<rparr>)"
  by (simp add: state_inv_def heap_inv_def)

lemma observe_state_inv:
  assumes inv: "state_inv s"
  shows "(\<exists>s'. observe s ob = Inr s' \<and> state_inv s' \<and> cur_cfg s' \<noteq> None)
         \<or> observe s ob = Inl CannotCreateInstruction \<or> observe s ob = Inl CannotCreateCFG"
proof (cases "instr_new (ip ob) (insn_size ob) (Some (buf ob))")
  case None
  then show ?thesis by (simp add: observe_def)
next
  case (Some instr)
  show ?thesis
  proof (cases "cur_cfg s")
    case None
    then show ?thesis using observe_first[OF inv None Some] by auto
  next
    case (Some P)
    obtain r s1 where r: "cfg_insert s (Some P) instr (name_node ob) = Inr (r, s1)"
        "state_inv s1" "case r of None \<Rightarrow> True | Some n \<Rightarrow> n < length (nodes s1)"
      using cfg_insert_state_inv[OF inv Some] by blast
    show ?thesis
    proof (cases r)
      case None
      then show ?thesis using r observe_later[OF inv Some \<open>instr_new _ _ _ = Some instr\<close>] by simp
    next
      case (Some n)
      then have "state_inv (s1 \<lparr> cur_cfg := Some n \<rparr>)" using r by (intro state_inv_set_cur) simp_all
      then show ?thesis using Some r observe_later[OF inv \<open>cur_cfg s = Some P\<close> \<open>instr_new _ _ _ = Some instr\<close>]
        by simp
    qed
  qed
qed

lemma init_state_inv: "state_inv init_state"
  by (simp add: state_inv_def heap_inv_def init_state_def hashtable_new_def
      DEFAULT_HASHTABLE_SIZE_def ht_inv_def)

lemma run_state_inv:
  "state_inv s \<Longrightarrow> run s obl = Inr s' \<Longrightarrow> state_inv s'"
proof (induction obl arbitrary: s)
  case Nil
  then show ?case by simp
next
  case (Cons ob obl)
  from observe_state_inv[OF Cons.prems(1), of ob] Cons.prems(2)
  obtain s1 where "observe s ob = Inr s1" "state_inv s1" by auto
  then show ?case using Cons.IH[of s1] Cons.prems(2) by simp
qed

lemma run_no_fault:
  "state_inv s \<Longrightarrow> run s obl \<noteq> Inl NullDereference \<and> run s obl \<noteq> Inl OutOfBounds"
proof (induction obl arbitrary: s)
  case Nil
  then show ?case by simp
next
  case (Cons ob obl)
  from observe_state_inv[OF Cons.prems(1), of ob]
  show ?case
  proof (elim disjE exE conjE)
    fix s1 assume "observe s ob = Inr s1" "state_inv s1"
    then show ?thesis using Cons.IH[of s1] by simp
  qed simp_all
qed

subsection \<open>The example runs\<close>

lemmas exec_defs = observe_def obs_def init_state_def instr_new_def instr_new_type_def buffer_of_def
  cfg_insert_def aux_cfg_insert_def aux_cfg_insert_switch_def append_successor_def install_edge_def realloc_successor_def
  cfg_new_def hashtable_lookup_def hashtable_insert_def hashtable_new_def bucket_index_def
  hash_instr_def fasthash64_def mix_def DEFAULT_HASHTABLE_SIZE_def
  stack_push_def stack_pop_def stack_get_top_def list_insert_after_tail_def Let_def is_power_2.simps
  upt_conv_Cons

lemma run_trace_call: "run init_state trace_call = Inr state_call"
  by (simp add: trace_call_def state_call_def exec_defs)

lemma run_trace_ret_known: "run init_state trace_ret_known = Inr state_ret_known"
  by (simp add: trace_ret_known_def state_ret_known_def exec_defs) (simp add: numeral_2_eq_2)

lemma run_trace_ret_empty: "run init_state trace_ret_empty = Inr state_ret_empty"
  by (simp add: trace_ret_empty_def state_ret_empty_def exec_defs)

lemma run_trace_loop: "run init_state trace_loop = Inr state_loop"
  by (simp add: trace_loop_def state_loop_def exec_defs)

lemma run_trace_jump: "run init_state trace_jump = Inr state_jump"
  by (simp add: trace_jump_def state_jump_def exec_defs)

lemma observe_same_address: "observe state_jump (obs 0x2000 [0xC3]) = Inr state_same_address"
  by (simp add: state_jump_def state_same_address_def exec_defs) (simp add: numeral_2_eq_2)

lemma run_trace_ret_early: "run init_state trace_ret_early = Inr state_ret_early"
  by (simp add: trace_ret_early_def state_ret_early_def exec_defs)
    (simp add: numeral_2_eq_2 numeral_3_eq_3)

lemma add_edge_installed:
  assumes "C < length ns" "N < length ns" "unat (nb_out (ns ! C)) < length (grown (ns ! C))"
    "unat (nb_out (ns ! C)) \<le> length (successor (ns ! C))"
  shows "edge_installed ns (add_edge ns C N) C N"
  unfolding edge_installed_def
  using assms
  by (simp add: add_edge_instruction add_edge_successor add_edge_nb_out add_edge_nb_in
      add_edge_name grown_take)

section \<open>The shadow stack\<close>

lemma state_inv_reachable: "run init_state obl = Inr s \<Longrightarrow> state_inv s"
  using run_state_inv[OF init_state_inv] .

lemma aux_ret_empty_no_null:
  assumes "type (instruction (nodes s ! CFG)) = RET" "stack s = []"
  shows "aux_cfg_insert s CFG new_ptr \<noteq> Inl NullDereference"
  using assms
  by (auto simp: aux_cfg_insert_def aux_cfg_insert_switch_def append_successor_def
      install_edge_def Let_def
      split: option.splits list.splits sum.splits if_splits)

text \<open>
  C10. On the empty stack \<open>stack_get_top\<close> returns \<open>NULL\<close> and \<open>stack_pop\<close> the
  empty stack. The RET case asks \<open>if (*stack)\<close> first: with a RET as previous node and
  an empty stack \<open>aux_cfg_insert\<close> never dereferences a \<open>NULL\<close> top, on any memory;
  on a memory that satisfies the builder's invariant it appends the edge to the RET node;
  and no run from the initial memory ends in a \<open>NULL\<close> dereference.
\<close>

theorem shadow_stack_total_at_empty:
  "stack_get_top [] = None \<and> stack_pop [] = []
   \<and> (type (instruction (nodes s ! CFG)) = RET \<and> stack s = []
        \<longrightarrow> aux_cfg_insert s CFG new_ptr \<noteq> Inl NullDereference)
   \<and> (state_inv s \<and> CFG < length (nodes s) \<and> new < length (nodes s)
        \<and> type (instruction (nodes s ! CFG)) = RET \<and> stack s = []
        \<longrightarrow> aux_cfg_insert s CFG (Some new)
             = Inr (Some new, s \<lparr> nodes := add_edge (nodes s) CFG new \<rparr>))
   \<and> run init_state obl \<noteq> Inl NullDereference"
proof -
  have a: "stack_get_top [] = None" "stack_pop [] = []"
    by (simp_all add: stack_get_top_def stack_pop_def)
  have b: "aux_cfg_insert s CFG (Some new)
             = Inr (Some new, s \<lparr> nodes := add_edge (nodes s) CFG new \<rparr>)"
    if "state_inv s" "CFG < length (nodes s)" "new < length (nodes s)"
       "type (instruction (nodes s ! CFG)) = RET" "stack s = []"
    using that by (intro aux_ret_unmatched[OF state_inv_node]) simp_all
  have c: "run init_state obl \<noteq> Inl NullDereference"
    using run_no_fault[OF init_state_inv] by simp
  show ?thesis using a b c aux_ret_empty_no_null by blast
qed

theorem shadow_stack_total_at_empty_witness:
  "type (instruction (nodes state_ret_empty ! 1)) = RET \<and> stack state_ret_empty = []
   \<and> aux_cfg_insert state_ret_empty 1 (Some 0) \<noteq> Inl NullDereference
   \<and> aux_cfg_insert state_ret_empty 1 (Some 0)
       = Inr (Some 0, state_ret_empty \<lparr> nodes := add_edge (nodes state_ret_empty) 1 0 \<rparr>)
   \<and> run init_state trace_ret_empty \<noteq> Inl NullDereference"
proof -
  have inv: "state_inv state_ret_empty"
    using run_trace_ret_empty by (rule state_inv_reachable)
  have h: "1 < length (nodes state_ret_empty)" "0 < length (nodes state_ret_empty)"
    "type (instruction (nodes state_ret_empty ! 1)) = RET" "stack state_ret_empty = []"
    by (simp_all add: state_ret_empty_def)
  show ?thesis
    using shadow_stack_total_at_empty[of state_ret_empty 1 "Some 0" 0 trace_ret_empty] inv h
    by blast
qed

section \<open>The return case of \<open>aux_cfg_insert\<close>\<close>

lemma has_successor_at_member:
  "Some N \<in> set (succs c) \<Longrightarrow> has_successor_at ns c (address (instruction (ns ! N)))"
  by (auto simp: has_successor_at_iff)

lemma state_inv_edge_installed:
  assumes inv: "state_inv s" and C: "C < length (nodes s)" and N: "N < length (nodes s)"
    and ty: "type (instruction (nodes s ! C)) \<noteq> BASIC"
  shows "edge_installed (nodes s) (add_edge (nodes s) C N) C N"
proof -
  note ninv = state_inv_node[OF inv C]
  have "unat (nb_out (nodes s ! C)) < length (grown (nodes s ! C))"
    using ninv ty by (intro slot_in_range) simp_all
  moreover have "unat (nb_out (nodes s ! C)) \<le> length (successor (nodes s ! C))"
    using ninv by (simp add: node_inv_def)
  ultimately show ?thesis using C N by (intro add_edge_installed)
qed

text \<open>
  \<open>aux_cfg_insert\<close> behind a RET instruction \<open>P\<close>, on a memory that satisfies the
  builder's invariant: the three outcomes of the RET case.
\<close>

lemma aux_cfg_insert_ret:
  assumes "state_inv s" and "P < length (nodes s)" and "N < length (nodes s)"
    and "type (instruction (nodes s ! P)) = RET"
  shows
    "(stack s = C # rest \<and> ret_matches (nodes s) N C
        \<and> \<not> has_successor_at (nodes s) (nodes s ! C) (address (instruction (nodes s ! N)))
      \<longrightarrow> aux_cfg_insert s P (Some N)
            = Inr (Some N, s \<lparr> stack := rest, nodes := add_edge (nodes s) C N \<rparr>)
          \<and> edge_installed (nodes s) (add_edge (nodes s) C N) C N \<and> C \<noteq> P)
     \<and> (stack s = C # rest \<and> ret_matches (nodes s) N C
        \<and> has_successor_at (nodes s) (nodes s ! C) (address (instruction (nodes s ! N)))
      \<longrightarrow> aux_cfg_insert s P (Some N) = Inr (Some N, s \<lparr> stack := rest \<rparr>))
     \<and> (Some N \<in> set (succs (nodes s ! C))
      \<longrightarrow> has_successor_at (nodes s) (nodes s ! C) (address (instruction (nodes s ! N))))
     \<and> (stack s = [] \<or> \<not> ret_matches (nodes s) N (hd (stack s))
      \<longrightarrow> aux_cfg_insert s P (Some N)
            = Inr (Some N, s \<lparr> nodes := add_edge (nodes s) P N \<rparr>)
          \<and> edge_installed (nodes s) (add_edge (nodes s) P N) P N)"
proof -
  note inv = assms(1) and P = assms(2) and N = assms(3) and ty = assms(4)
  note pinv = state_inv_node[OF inv P]
  have matched: "aux_cfg_insert s P (Some N) =
     (if has_successor_at (nodes s) (nodes s ! C) (address (instruction (nodes s ! N)))
      then Inr (Some N, s \<lparr> stack := rest \<rparr>)
      else Inr (Some N, s \<lparr> stack := rest, nodes := add_edge (nodes s) C N \<rparr>))"
    and call: "C < length (nodes s)" "type (instruction (nodes s ! C)) = CALL"
    if st: "stack s = C # rest" and m: "ret_matches (nodes s) N C"
  proof -
    note T = state_inv_stack[OF inv st]
    show "C < length (nodes s)" "type (instruction (nodes s ! C)) = CALL" using T by simp_all
    have tinv: "node_inv (length (nodes s)) (nodes s ! C)" using T inv by (simp add: state_inv_node)
    show "aux_cfg_insert s P (Some N) =
     (if has_successor_at (nodes s) (nodes s ! C) (address (instruction (nodes s ! N)))
      then Inr (Some N, s \<lparr> stack := rest \<rparr>)
      else Inr (Some N, s \<lparr> stack := rest, nodes := add_edge (nodes s) C N \<rparr>))"
      using T by (intro aux_ret_matched[OF pinv N ty st m tinv]) simp_all
  qed
  have 1: "aux_cfg_insert s P (Some N)
            = Inr (Some N, s \<lparr> stack := rest, nodes := add_edge (nodes s) C N \<rparr>)
          \<and> edge_installed (nodes s) (add_edge (nodes s) C N) C N \<and> C \<noteq> P"
    if "stack s = C # rest" "ret_matches (nodes s) N C"
       "\<not> has_successor_at (nodes s) (nodes s ! C) (address (instruction (nodes s ! N)))"
    using matched[OF that(1,2)] call[OF that(1,2)] that(3) ty
      state_inv_edge_installed[OF inv _ N, of C] by auto
  have 2: "aux_cfg_insert s P (Some N) = Inr (Some N, s \<lparr> stack := rest \<rparr>)"
    if "stack s = C # rest" "ret_matches (nodes s) N C"
       "has_successor_at (nodes s) (nodes s ! C) (address (instruction (nodes s ! N)))"
    using matched[OF that(1,2)] that(3) by simp
  have 3: "aux_cfg_insert s P (Some N)
            = Inr (Some N, s \<lparr> nodes := add_edge (nodes s) P N \<rparr>)
          \<and> edge_installed (nodes s) (add_edge (nodes s) P N) P N"
    if "stack s = [] \<or> \<not> ret_matches (nodes s) N (hd (stack s))"
    using aux_ret_unmatched[OF pinv P N ty that] state_inv_edge_installed[OF inv P N] ty by simp
  show ?thesis using 1 2 3 has_successor_at_member by blast
qed

section \<open>Known instructions and out-degree bounds\<close>

lemma prep_known_eq:
  "prep_known s P = s \<lparr> stack := (if type (instruction (nodes s ! P)) = CALL
                                   then stack_push (stack s) P else stack s) \<rparr>"
  by (simp add: prep_known_def)

lemma state_inv_ht: "state_inv s \<Longrightarrow> \<exists>h. ht s = Some h \<and> ht_inv (nodes s) h"
  by (simp add: state_inv_def heap_inv_def)

lemma lookup_known:
  assumes inv: "state_inv s" and l: "hashtable_lookup (nodes s) (ht s) ins = Some N"
  shows "N < length (nodes s)" "address (instruction (nodes s ! N)) = address ins"
proof -
  obtain h where h: "ht s = Some h" "ht_inv (nodes s) h" using state_inv_ht[OF inv] by blast
  show "N < length (nodes s)" "address (instruction (nodes s ! N)) = address ins"
    using hashtable_lookup_Some[OF h(2), of ins N] l h(1) by simp_all
qed

lemma cfg_insert_known_length:
  assumes inv: "state_inv s" and cur: "cur_cfg s = Some P"
    and l: "hashtable_lookup (nodes s) (ht s) ins = Some N"
  shows "\<exists>r s'. cfg_insert s (Some P) ins str = Inr (r, s') \<and> length (nodes s') = length (nodes s)"
proof -
  note P = state_inv_cur[OF inv cur]
  note N = lookup_known(1)[OF inv l]
  note k = prep_known_props[OF inv P]
  have "\<exists>r s'. aux_cfg_insert (prep_known s P) P (Some N) = Inr (r, s')
           \<and> length (nodes s') = length (nodes (prep_known s P))"
    using aux_cfg_insert_state_inv[OF k(1), of P N] P N k(2) by auto
  then show ?thesis using l k(2) by (auto simp: cfg_insert_unfold[OF inv P])
qed

lemma cfg_insert_known_edge:
  assumes inv: "state_inv s" and cur: "cur_cfg s = Some P"
    and l: "hashtable_lookup (nodes s) (ht s) ins = Some N"
    and e: "Some N \<in> set (succs (nodes s ! P))"
  shows "cfg_insert s (Some P) ins str = Inr (Some N, prep_known s P)"
  using l has_successor_at_member[OF e, of "nodes s"]
  by (simp add: cfg_insert_unfold[OF inv state_inv_cur[OF inv cur]])

text \<open>
  C6. An instruction that is in the index makes no new node. When the node found is
  already a successor of the previous node \<open>P\<close>, \<open>cfg_insert\<close> returns it and leaves the
  heap, the table and the roster as they are (the call site is still pushed when \<open>P\<close>
  is a CALL), so that observing the instruction again after \<open>P\<close> changes nothing in the
  graph: it only makes the node found the previous node.
\<close>

theorem known_edge_idempotent:
  assumes "state_inv s" and "cur_cfg s = Some P"
    and "instr_new (ip ob) (insn_size ob) (Some (buf ob)) = Some ins"
    and "hashtable_lookup (nodes s) (ht s) ins = Some N"
  shows
    "(\<exists>r s'. cfg_insert s (Some P) ins str = Inr (r, s') \<and> length (nodes s') = length (nodes s))
     \<and> (Some N \<in> set (succs (nodes s ! P)) \<longrightarrow>
          cfg_insert s (Some P) ins str
            = Inr (Some N, s \<lparr> stack := (if type (instruction (nodes s ! P)) = CALL
                                          then stack_push (stack s) P else stack s) \<rparr>)
          \<and> observe s ob
            = Inr (s \<lparr> stack := (if type (instruction (nodes s ! P)) = CALL
                                 then stack_push (stack s) P else stack s),
                       cur_cfg := Some N \<rparr>))"
proof -
  note inv = assms(1) and cur = assms(2) and i = assms(3) and l = assms(4)
  have a: "\<exists>r s'. cfg_insert s (Some P) ins str = Inr (r, s') \<and> length (nodes s') = length (nodes s)"
    using inv cur l by (rule cfg_insert_known_length)
  have b: "cfg_insert s (Some P) ins str' = Inr (Some N, prep_known s P)"
    if "Some N \<in> set (succs (nodes s ! P))" for str'
    using inv cur l that by (rule cfg_insert_known_edge)
  have c: "observe s ob = Inr (prep_known s P \<lparr> cur_cfg := Some N \<rparr>)"
    if "Some N \<in> set (succs (nodes s ! P))"
    using b[OF that] by (simp add: observe_later[OF inv cur i])
  show ?thesis using a b c by (simp add: prep_known_eq)
qed

theorem known_edge_idempotent_witness:
  "cur_cfg state_loop = Some 0
   \<and> hashtable_lookup (nodes state_loop) (ht state_loop)
        \<lparr> address = 0x1001, type = BASIC, size_i = 1, opcodes = [0x90] \<rparr> = Some 1
   \<and> Some 1 \<in> set (succs (nodes state_loop ! 0))
   \<and> observe state_loop (obs 0x1001 [0x90]) = Inr (state_loop \<lparr> cur_cfg := Some 1 \<rparr>)"
proof -
  have inv: "state_inv state_loop"
    using run_trace_loop by (rule state_inv_reachable)
  have h: "cur_cfg state_loop = Some 0"
    "instr_new (ip (obs 0x1001 [0x90])) (insn_size (obs 0x1001 [0x90]))
       (Some (buf (obs 0x1001 [0x90])))
     = Some \<lparr> address = 0x1001, type = BASIC, size_i = 1, opcodes = [0x90] \<rparr>"
    "hashtable_lookup (nodes state_loop) (ht state_loop)
        \<lparr> address = 0x1001, type = BASIC, size_i = 1, opcodes = [0x90] \<rparr> = Some 1"
    "Some 1 \<in> set (succs (nodes state_loop ! 0))"
    "type (instruction (nodes state_loop ! 0)) \<noteq> CALL"
    by (simp_all add: state_loop_def succs_def exec_defs)
  show ?thesis
    using known_edge_idempotent[OF inv h(1,2,3), of "[]"] h by simp
qed

lemma node_inv_bounds:
  assumes "node_inv n c"
  shows "(type (instruction c) = BASIC \<longrightarrow> unat (nb_out c) \<le> 1)
         \<and> (type (instruction c) = BRANCH \<longrightarrow> unat (nb_out c) \<le> 2)"
  using assms by (auto simp: node_inv_def)

lemma aux_full:
  assumes inv: "state_inv s" and P: "P < length (nodes s)"
    and full: "type (instruction (nodes s ! P)) = BASIC \<and> nb_out (nodes s ! P) = 1
               \<or> type (instruction (nodes s ! P)) = BRANCH \<and> nb_out (nodes s ! P) = 2"
  shows "aux_cfg_insert s P (Some N) = Inr (None, s)"
  using full aux_basic_full[OF state_inv_node[OF inv P], of N]
    aux_branch_full[OF state_inv_node[OF inv P], of N] by auto

lemma observe_full:
  assumes inv: "state_inv s" and cur: "cur_cfg s = Some P"
    and full: "type (instruction (nodes s ! P)) = BASIC \<and> nb_out (nodes s ! P) = 1
               \<or> type (instruction (nodes s ! P)) = BRANCH \<and> nb_out (nodes s ! P) = 2"
    and i: "instr_new (ip ob) (insn_size ob) (Some (buf ob)) = Some ins"
    and nos: "\<not> has_successor_at (nodes s) (nodes s ! P) (address ins)"
  shows "observe s ob = Inl CannotCreateCFG"
proof -
  note P = state_inv_cur[OF inv cur]
  have "\<exists>s1. cfg_insert s (Some P) ins (name_node ob) = Inr (None, s1)"
  proof (cases "hashtable_lookup (nodes s) (ht s) ins")
    case None
    obtain node where n: "nodes (prep_new s P ins (name_node ob)) = nodes s @ [node]"
        "state_inv (prep_new s P ins (name_node ob))"
      using prep_new_props[OF inv P None, of "name_node ob"] by blast
    have same: "nodes (prep_new s P ins (name_node ob)) ! P = nodes s ! P"
      using n(1) P by (simp add: nth_append)
    have "aux_cfg_insert (prep_new s P ins (name_node ob)) P (Some (length (nodes s)))
          = Inr (None, prep_new s P ins (name_node ob))"
      using full P n(1) by (intro aux_full[OF n(2)]) (simp_all add: nth_append)
    then show ?thesis using None by (simp add: cfg_insert_unfold[OF inv P])
  next
    case (Some N)
    note k = prep_known_props[OF inv P]
    have "aux_cfg_insert (prep_known s P) P (Some N) = Inr (None, prep_known s P)"
      using full P by (intro aux_full[OF k(1)]) (simp_all add: k(2))
    then show ?thesis using Some nos lookup_known(2)[OF inv Some]
      by (simp add: cfg_insert_unfold[OF inv P])
  qed
  then show ?thesis by (auto simp: observe_later[OF inv cur i])
qed

text \<open>
  C7. In every memory a run reaches, a BASIC node has at most one successor and a BRANCH
  node at most two. Asked to add a successor to a BASIC node that has one, or to a
  BRANCH node that has two, \<open>aux_cfg_insert\<close> returns \<open>NULL\<close> and leaves the memory as
  it is; the observation of an instruction whose address no successor of such a previous
  node has ends the run with "cannot create a control flow graph".
\<close>

theorem out_degree_bounds:
  assumes "run init_state obl = Inr s"
  shows
    "(p < length (nodes s) \<longrightarrow>
        (type (instruction (nodes s ! p)) = BASIC \<longrightarrow> unat (nb_out (nodes s ! p)) \<le> 1)
        \<and> (type (instruction (nodes s ! p)) = BRANCH \<longrightarrow> unat (nb_out (nodes s ! p)) \<le> 2))
     \<and> (P < length (nodes s)
        \<and> (type (instruction (nodes s ! P)) = BASIC \<and> nb_out (nodes s ! P) = 1
           \<or> type (instruction (nodes s ! P)) = BRANCH \<and> nb_out (nodes s ! P) = 2)
        \<longrightarrow> aux_cfg_insert s P (Some N) = Inr (None, s))
     \<and> (cur_cfg s = Some P
        \<and> (type (instruction (nodes s ! P)) = BASIC \<and> nb_out (nodes s ! P) = 1
           \<or> type (instruction (nodes s ! P)) = BRANCH \<and> nb_out (nodes s ! P) = 2)
        \<and> instr_new (ip ob) (insn_size ob) (Some (buf ob)) = Some ins
        \<and> \<not> has_successor_at (nodes s) (nodes s ! P) (address ins)
        \<longrightarrow> observe s ob = Inl CannotCreateCFG)"
proof -
  have inv: "state_inv s" using assms by (rule state_inv_reachable)
  show ?thesis
    using node_inv_bounds[OF state_inv_node[OF inv, of p]] aux_full[OF inv, of P N]
      observe_full[OF inv, of P ob ins]
    by blast
qed

theorem out_degree_bounds_witness:
  "run init_state trace_loop = Inr state_loop \<and> cur_cfg state_loop = Some 0
   \<and> type (instruction (nodes state_loop ! 0)) = BASIC
   \<and> unat (nb_out (nodes state_loop ! 0)) \<le> 1 \<and> nb_out (nodes state_loop ! 0) = 1
   \<and> aux_cfg_insert state_loop 0 (Some 0) = Inr (None, state_loop)
   \<and> observe state_loop (obs 0x1002 [0x90]) = Inl CannotCreateCFG"
proof -
  have h: "0 < length (nodes state_loop)" "cur_cfg state_loop = Some 0"
    "type (instruction (nodes state_loop ! 0)) = BASIC" "nb_out (nodes state_loop ! 0) = 1"
    "instr_new (ip (obs 0x1002 [0x90])) (insn_size (obs 0x1002 [0x90]))
       (Some (buf (obs 0x1002 [0x90])))
     = Some \<lparr> address = 0x1002, type = BASIC, size_i = 1, opcodes = [0x90] \<rparr>"
    "\<not> has_successor_at (nodes state_loop) (nodes state_loop ! 0)
         (address \<lparr> address = 0x1002, type = BASIC, size_i = 1, opcodes = [0x90] \<rparr>)"
    by (simp_all add: state_loop_def succs_def has_successor_at_def exec_defs)
  show ?thesis
    using out_degree_bounds[OF run_trace_loop, of 0 0 0 "obs 0x1002 [0x90]"
        "\<lparr> address = 0x1002, type = BASIC, size_i = 1, opcodes = [0x90] \<rparr>"]
      h run_trace_loop
    by simp
qed

section \<open>Capacity, the index and function tags\<close>

lemma run_append:
  "run s (xs @ ys) = (case run s xs of Inl e \<Rightarrow> Inl e | Inr s1 \<Rightarrow> run s1 ys)"
  by (induction xs arbitrary: s) (auto split: sum.splits)

lemma run_trace_same_address: "run init_state trace_same_address = Inr state_same_address"
  by (simp add: trace_same_address_def run_append run_trace_jump observe_same_address)

lemma add_edge_capacity:
  "C < length ns \<Longrightarrow>
   length (successor (add_edge ns C N ! C)) =
     (if \<exists>j. 1 \<le> j \<and> unat (nb_out (ns ! C)) = 2 ^ j
      then 2 * unat (nb_out (ns ! C)) else length (successor (ns ! C)))"
  by (auto simp add: add_edge_successor grown_def is_power_2_iff)

lemma aux_append_paths:
  assumes inv: "state_inv s" and P: "P < length (nodes s)" and N: "N < length (nodes s)"
    and ty: "type (instruction (nodes s ! P)) = JUMP
             \<or> type (instruction (nodes s ! P)) = RET
               \<and> (stack s = [] \<or> \<not> ret_matches (nodes s) N (hd (stack s)))"
  shows "aux_cfg_insert s P (Some N) = Inr (Some N, s \<lparr> nodes := add_edge (nodes s) P N \<rparr>)"
  using ty aux_jump[OF state_inv_node[OF inv P] P N]
    aux_ret_unmatched[OF state_inv_node[OF inv P] P N] by blast

text \<open>
  C8. In every memory a run reaches, the successors of a node fit its array and the
  array has a power of two of slots. \<open>is_power_2\<close> holds of 2, 4, 8, ... and not of 1: an
  append to a JUMP node, or to a RET node whose return is unmatched, leaves the array at
  twice the out-degree when the out-degree is one of 2, 4, 8, ..., and as it was
  otherwise.
\<close>

theorem successor_capacity:
  assumes "run init_state obl = Inr s" and "p < length (nodes s)"
  shows
    "unat (nb_out (nodes s ! p)) \<le> length (successor (nodes s ! p))
     \<and> (\<exists>k. length (successor (nodes s ! p)) = 2 ^ k)
     \<and> (is_power_2 n \<longleftrightarrow> (\<exists>j. 1 \<le> j \<and> unat n = 2 ^ j))
     \<and> (N < length (nodes s)
        \<and> (type (instruction (nodes s ! p)) = JUMP
           \<or> type (instruction (nodes s ! p)) = RET
             \<and> (stack s = [] \<or> \<not> ret_matches (nodes s) N (hd (stack s))))
        \<longrightarrow> aux_cfg_insert s p (Some N) = Inr (Some N, s \<lparr> nodes := add_edge (nodes s) p N \<rparr>)
            \<and> length (successor (add_edge (nodes s) p N ! p)) =
                (if \<exists>j. 1 \<le> j \<and> unat (nb_out (nodes s ! p)) = 2 ^ j
                 then 2 * unat (nb_out (nodes s ! p))
                 else length (successor (nodes s ! p))))"
proof -
  have inv: "state_inv s" using assms(1) by (rule state_inv_reachable)
  have a: "unat (nb_out (nodes s ! p)) \<le> length (successor (nodes s ! p))"
    "\<exists>k. length (successor (nodes s ! p)) = 2 ^ k"
    using state_inv_node[OF inv assms(2)] by (simp_all add: node_inv_def)
  show ?thesis
    using a is_power_2_iff[of n] aux_append_paths[OF inv assms(2), of N]
      add_edge_capacity[OF assms(2), of N]
    by blast
qed

theorem successor_capacity_witness:
  "type (instruction (nodes state_same_address ! 0)) = JUMP
   \<and> unat (nb_out (nodes state_same_address ! 0)) = 2
   \<and> length (successor (nodes state_same_address ! 0)) = 2 ^ 1
   \<and> is_power_2 2
   \<and> aux_cfg_insert state_same_address 0 (Some 0)
       = Inr (Some 0, state_same_address \<lparr> nodes := add_edge (nodes state_same_address) 0 0 \<rparr>)
   \<and> length (successor (add_edge (nodes state_same_address) 0 0 ! 0)) = 4"
proof -
  have h: "0 < length (nodes state_same_address)"
    "type (instruction (nodes state_same_address ! 0)) = JUMP"
    "unat (nb_out (nodes state_same_address ! 0)) = 2"
    "length (successor (nodes state_same_address ! 0)) = 2 ^ 1"
    by (simp_all add: state_same_address_def)
  have p: "\<exists>j. 1 \<le> j \<and> unat (nb_out (nodes state_same_address ! 0)) = 2 ^ j"
    using h(3) by (intro exI[of _ 1]) simp
  have q: "\<exists>j. 1 \<le> j \<and> unat (2 :: 16 word) = 2 ^ j"
    by (intro exI[of _ 1]) simp
  show ?thesis
    using successor_capacity[OF run_trace_same_address h(1), of 2 0] h p q by simp
qed

theorem no_growth_at_out_degree_one:
  "run init_state trace_jump = Inr state_jump
   \<and> type (instruction (nodes state_jump ! 0)) = JUMP
   \<and> unat (nb_out (nodes state_jump ! 0)) = 2 ^ 0
   \<and> \<not> is_power_2 (nb_out (nodes state_jump ! 0))
   \<and> successor (nodes state_jump ! 0) = [Some 1, None]
   \<and> observe state_jump (obs 0x2000 [0xC3]) = Inr state_same_address
   \<and> successor (nodes state_same_address ! 0) = [Some 1, Some 2]
   \<and> length (successor (nodes state_same_address ! 0))
       = length (successor (nodes state_jump ! 0))"
  using observe_same_address run_trace_jump
  by (simp add: state_jump_def state_same_address_def)

lemma hashtable_insert_present:
  assumes "bucket_scan ns (buckets h (bucket_index h (instruction (ns ! q))))
             (address (instruction (ns ! q))) \<noteq> None"
  shows "hashtable_insert ns (Some h) q = (True, Some h)"
proof -
  have "buckets h (bucket_index h (instruction (ns ! q))) \<noteq> []"
    using assms by auto
  then show ?thesis using assms by (simp add: hashtable_insert_def Let_def)
qed

lemma hashtable_lookup_scan:
  "hashtable_lookup ns (Some h) ins
     = bucket_scan ns (buckets h (bucket_index h ins)) (address ins)"
  by (simp add: hashtable_lookup_def Let_def)

text \<open>
  C9. In every memory a run reaches, looking up the instruction of a node stored in the
  table returns that node, and every node of the heap is stored, in the bucket its
  instruction hashes to. No bucket holds two nodes with the same address: an insertion
  that finds the address in the selected bucket returns \<open>true\<close> and leaves the table as
  it is. The lookup is the scan of the bucket selected by the hash of the opcode bytes
  and the address, for the first entry with the address looked for.
\<close>

theorem index_lookup_returns_node:
  assumes "run init_state obl = Inr s" and "ht s = Some h" and "p \<in> set (buckets h i)"
  shows
    "hashtable_lookup (nodes s) (ht s) (instruction (nodes s ! p)) = Some p
     \<and> i = bucket_index h (instruction (nodes s ! p))
     \<and> distinct (map (\<lambda>q. address (instruction (nodes s ! q))) (buckets h i))
     \<and> (q < length (nodes s) \<longrightarrow>
          hashtable_lookup (nodes s) (ht s) (instruction (nodes s ! q)) = Some q)
     \<and> (bucket_scan (nodes s) (buckets h (bucket_index h (instruction (nodes s ! q))))
           (address (instruction (nodes s ! q))) \<noteq> None
        \<longrightarrow> hashtable_insert (nodes s) (ht s) q = (True, ht s))
     \<and> hashtable_lookup (nodes s) (ht s) ins
         = bucket_scan (nodes s) (buckets h (bucket_index h ins)) (address ins)"
proof -
  have inv: "state_inv s" using assms(1) by (rule state_inv_reachable)
  have hi: "ht_inv (nodes s) h" using state_inv_ht[OF inv] assms(2) by auto
  have 1: "hashtable_lookup (nodes s) (ht s) (instruction (nodes s ! p)) = Some p"
    using hashtable_lookup_stored[OF hi assms(3)] assms(2) by simp
  have 2: "i = bucket_index h (instruction (nodes s ! p))"
    using hi assms(3) by (auto simp: ht_inv_def)
  have 3: "distinct (map (\<lambda>q. address (instruction (nodes s ! q))) (buckets h i))"
    using hi by (simp add: ht_inv_def)
  have 4: "hashtable_lookup (nodes s) (ht s) (instruction (nodes s ! q)) = Some q"
    if "q < length (nodes s)"
    using hashtable_lookup_node[OF hi that] assms(2) by simp
  show ?thesis
    using 1 2 3 4 hashtable_insert_present[of "nodes s" h q] hashtable_lookup_scan[of "nodes s" h ins]
    by (simp add: assms(2))
qed

theorem index_lookup_returns_node_witness:
  "ht state_call = Some \<lparr> size_h = 65536, collisions = 0, entries = 2,
                          buckets = (\<lambda>i. [])(28847 := [0], 52615 := [1]) \<rparr>
   \<and> hashtable_lookup (nodes state_call) (ht state_call) (instruction (nodes state_call ! 1))
       = Some 1
   \<and> bucket_index \<lparr> size_h = 65536, collisions = 0, entries = 2,
                     buckets = (\<lambda>i. [])(28847 := [0], 52615 := [1]) \<rparr>
        (instruction (nodes state_call ! 1)) = 52615
   \<and> hashtable_insert (nodes state_call) (ht state_call) 1 = (True, ht state_call)"
proof -
  let ?h = "\<lparr> size_h = 65536, collisions = 0, entries = 2,
              buckets = (\<lambda>i. [])(28847 := [0], 52615 := [1 :: nat]) \<rparr>"
  have h: "ht state_call = Some ?h" "1 \<in> set (buckets ?h 52615)"
    "bucket_scan (nodes state_call) (buckets ?h (bucket_index ?h (instruction (nodes state_call ! 1))))
           (address (instruction (nodes state_call ! 1))) \<noteq> None"
    by (simp_all add: state_call_def exec_defs)
  show ?thesis
    using index_lookup_returns_node[OF run_trace_call h(1,2), of 1] h by simp
qed

lemma function_tags_zero:
  assumes "run init_state obl = Inr s" "p < length (nodes s)"
  shows "name (nodes s ! p) = 0"
  using state_inv_node[OF state_inv_reachable[OF assms(1)] assms(2)]
  by (simp add: node_inv_def)

text \<open>
  C2. A call at 0x1000 is observed, then the first instruction of the callee at 0x2000.
  The new node is appended to the roster, which now has two entries, but its function
  tag is the one copied from the call site, 0, and not the fresh tag 1: \<open>aux_cfg_insert\<close>
  copies the tag of the predecessor on every edge and nothing ever makes a new tag.
\<close>

theorem call_target_tag_not_fresh:
  "run init_state trace_call = Inr state_call
   \<and> type (instruction (nodes state_call ! 0)) = CALL
   \<and> first_entry state_call = [0, 1]
   \<and> name (nodes state_call ! 1) = 0
   \<and> name (nodes state_call ! 1) \<noteq> of_nat (length (first_entry state_call) - 1)"
  using run_trace_call by (simp add: state_call_def)

section \<open>In-degrees\<close>

lemma unat_succ_16: "unat (x :: 16 word) < 65535 \<Longrightarrow> unat (x + 1) = unat x + 1"
  by (simp add: unat_word_ariths)

lemma predecessors_card:
  "length (predecessors ns n) = card {m. m < length ns \<and> Some n \<in> set (succs (ns ! m))}"
proof -
  have "distinct (predecessors ns n)" by (simp add: predecessors_def)
  then have "length (predecessors ns n) = card (set (predecessors ns n))"
    by (simp add: distinct_card)
  also have "set (predecessors ns n) = {m. m < length ns \<and> Some n \<in> set (succs (ns ! m))}"
    by (auto simp: predecessors_def)
  finally show ?thesis .
qed

lemma edges_ok_iff:
  "edges_ok ns \<longleftrightarrow>
     (\<forall>n < length ns. unat (nb_in (ns ! n)) = length (predecessors ns n)
                  \<and> distinct (succs (ns ! n)))"
  by (auto simp: edges_ok_def list_all_iff)

lemma node_inv_succs_some:
  assumes "node_inv n c" and "x \<in> set (succs c)"
  shows "\<exists>q. x = Some q \<and> q < n"
proof -
  have "list_all (\<lambda>x. case x of None \<Rightarrow> False | Some q \<Rightarrow> q < n) (succs c)"
    using assms(1) unfolding node_inv_def by blast
  then show ?thesis using assms(2) by (cases x) (auto simp: list_all_iff)
qed

lemma node_inv_succs_valid:
  "node_inv n c \<Longrightarrow> Some q \<in> set (succs c) \<Longrightarrow> q < n"
  using node_inv_succs_some by blast

lemma succs_length:
  assumes "node_inv n c"
  shows "length (succs c) = unat (nb_out c)"
proof -
  have "unat (nb_out c) \<le> length (successor c)" using assms unfolding node_inv_def by blast
  then show ?thesis by (simp add: succs_def)
qed

lemma out_degree_less:
  assumes inv: "node_inv n c" and d: "distinct (succs c)"
    and N: "N < n" and fresh: "Some N \<notin> set (succs c)"
  shows "unat (nb_out c) < n"
proof -
  have "set (succs c) \<subseteq> Some ` ({..<n} - {N})"
  proof
    fix x assume x: "x \<in> set (succs c)"
    then obtain q where q: "x = Some q" "q < n"
      using node_inv_succs_some[OF inv] by blast
    moreover have "q \<noteq> N" using fresh x q by auto
    ultimately show "x \<in> Some ` ({..<n} - {N})" by simp
  qed
  then have "card (set (succs c)) \<le> card (Some ` ({..<n} - {N}))"
    by (intro card_mono) simp_all
  also have "\<dots> = card ({..<n} - {N})" by (simp add: card_image)
  also have "\<dots> = n - 1" using N by simp
  finally have "length (succs c) \<le> n - 1" using d by (simp add: distinct_card)
  then show ?thesis using N succs_length[OF inv] by simp
qed

lemma in_degree_less:
  assumes C: "C < length ns" and fresh: "Some n \<notin> set (succs (ns ! C))"
  shows "length (predecessors ns n) < length ns"
proof -
  have "length (predecessors ns n) < length [0..<length ns]"
    unfolding predecessors_def using C fresh by (intro length_filter_less[of C]) simp_all
  then show ?thesis by simp
qed

lemma succs_add_edge:
  assumes C: "C < length ns" and m: "m < length ns"
    and nw: "unat (nb_out (ns ! C)) < 65535"
    and rng: "unat (nb_out (ns ! C)) < length (grown (ns ! C))"
    and le: "unat (nb_out (ns ! C)) \<le> length (successor (ns ! C))"
  shows "succs (add_edge ns C N ! m) =
           (if m = C then succs (ns ! C) @ [Some N] else succs (ns ! m))"
proof (cases "m = C")
  case True
  have "take (Suc (unat (nb_out (ns ! C)))) ((grown (ns ! C))[unat (nb_out (ns ! C)) := Some N])
        = take (unat (nb_out (ns ! C))) (grown (ns ! C)) @ [Some N]"
    using rng by (simp add: take_Suc_conv_app_nth)
  then show ?thesis
    using True C unat_succ_16[OF nw] grown_take[OF le]
    by (simp add: succs_def[of "add_edge ns C N ! C"] add_edge_successor add_edge_nb_out)
next
  case False
  then show ?thesis using m by (simp add: succs_def add_edge_successor add_edge_nb_out)
qed

lemma predecessors_add_edge:
  assumes C: "C < length ns"
    and nw: "unat (nb_out (ns ! C)) < 65535"
    and rng: "unat (nb_out (ns ! C)) < length (grown (ns ! C))"
    and le: "unat (nb_out (ns ! C)) \<le> length (successor (ns ! C))"
    and fresh: "Some N \<notin> set (succs (ns ! C))"
  shows "length (predecessors (add_edge ns C N) n) =
           (if n = N then Suc (length (predecessors ns n)) else length (predecessors ns n))"
proof -
  let ?A = "{m. m < length ns \<and> Some n \<in> set (succs (ns ! m))}"
  let ?B = "{m. m < length (add_edge ns C N) \<and> Some n \<in> set (succs (add_edge ns C N ! m))}"
  have s: "\<And>m. m < length ns \<Longrightarrow> succs (add_edge ns C N ! m) =
           (if m = C then succs (ns ! C) @ [Some N] else succs (ns ! m))"
    using succs_add_edge[OF C _ nw rng le] by simp
  have fin: "finite ?A" by simp
  show ?thesis
  proof (cases "n = N")
    case True
    have "?B = insert C ?A" using C True by (auto simp: s split: if_splits)
    moreover have "C \<notin> ?A" using fresh True by simp
    ultimately have "card ?B = Suc (card ?A)" using fin by simp
    then show ?thesis using True by (simp add: predecessors_card)
  next
    case False
    have "?B = ?A" using False by (auto simp: s split: if_splits)
    then show ?thesis using False by (simp add: predecessors_card)
  qed
qed

lemma edges_ok_add_edge:
  assumes inv: "edges_ok ns"
    and C: "C < length ns" and N: "N < length ns"
    and nw: "unat (nb_out (ns ! C)) < 65535"
    and nwi: "unat (nb_in (ns ! N)) < 65535"
    and rng: "unat (nb_out (ns ! C)) < length (grown (ns ! C))"
    and le: "unat (nb_out (ns ! C)) \<le> length (successor (ns ! C))"
    and fresh: "Some N \<notin> set (succs (ns ! C))"
  shows "edges_ok (add_edge ns C N)"
proof -
  have old: "\<And>n. n < length ns \<Longrightarrow> unat (nb_in (ns ! n)) = length (predecessors ns n)
                  \<and> distinct (succs (ns ! n))"
    using inv unfolding edges_ok_iff by blast
  note p = predecessors_add_edge[OF C nw rng le fresh]
  note s = succs_add_edge[OF C _ nw rng le]
  have "unat (nb_in (add_edge ns C N ! n)) = length (predecessors (add_edge ns C N) n)
        \<and> distinct (succs (add_edge ns C N ! n))" if n: "n < length ns" for n
  proof -
    have 1: "unat (nb_in (add_edge ns C N ! n)) = length (predecessors (add_edge ns C N) n)"
      using old[OF n] old[OF N] n unat_succ_16[OF nwi] by (simp add: p add_edge_nb_in)
    have 4: "distinct (succs (add_edge ns C N ! n))"
      using old[OF n] old[OF C] fresh by (simp add: s[OF n])
    show ?thesis using 1 4 by simp
  qed
  then show ?thesis unfolding edges_ok_iff add_edge_length by blast
qed

lemma edges_ok_append:
  assumes inv: "edges_ok ns"
    and valid: "list_all (node_inv (length ns)) ns"
    and node: "nb_in node = 0" "nb_out node = 0"
  shows "edges_ok (ns @ [node])"
proof -
  have old: "\<And>n. n < length ns \<Longrightarrow> unat (nb_in (ns ! n)) = length (predecessors ns n)
                  \<and> distinct (succs (ns ! n))"
    using inv unfolding edges_ok_iff by blast
  have v: "\<And>m q. m < length ns \<Longrightarrow> Some q \<in> set (succs (ns ! m)) \<Longrightarrow> q < length ns"
    using valid node_inv_succs_valid by (auto simp: list_all_length)
  have sn: "succs node = []" using node by (simp add: succs_def)
  have pr: "{m. m < length (ns @ [node]) \<and> Some n \<in> set (succs ((ns @ [node]) ! m))}
          = {m. m < length ns \<and> Some n \<in> set (succs (ns ! m))}" for n
    using sn by (auto simp: nth_append less_Suc_eq)
  have pl: "length (predecessors (ns @ [node]) n) = length (predecessors ns n)" for n
    by (simp only: predecessors_card pr)
  have fresh: "length (predecessors ns (length ns)) = 0"
    using v by (auto simp: predecessors_card)
  have "unat (nb_in ((ns @ [node]) ! n)) = length (predecessors (ns @ [node]) n)
        \<and> distinct (succs ((ns @ [node]) ! n))" if "n < length (ns @ [node])" for n
  proof (cases "n < length ns")
    case True
    then show ?thesis using old[OF True] by (simp add: pl nth_append)
  next
    case False
    then have "n = length ns" using that by simp
    then show ?thesis using node sn fresh by (simp add: pl)
  qed
  then show ?thesis unfolding edges_ok_iff by blast
qed

lemma not_has_successor_fresh:
  "\<not> has_successor_at ns c (address (instruction (ns ! N))) \<Longrightarrow> Some N \<notin> set (succs c)"
  using has_successor_at_member by blast

lemma state_inv_add_edge_ok:
  assumes inv: "state_inv s" and e: "edges_ok (nodes s)" and sz: "length (nodes s) \<le> 65535"
    and C: "C < length (nodes s)" and N: "N < length (nodes s)"
    and ty: "type (instruction (nodes s ! C)) \<noteq> BASIC \<or> nb_out (nodes s ! C) = 0"
    and fresh: "Some N \<notin> set (succs (nodes s ! C))"
  shows "edges_ok (add_edge (nodes s) C N)"
proof -
  note ninv = state_inv_node[OF inv C]
  have d: "distinct (succs (nodes s ! C))"
    and i: "unat (nb_in (nodes s ! N)) = length (predecessors (nodes s) N)"
    using e C N unfolding edges_ok_iff by blast+
  have rng: "unat (nb_out (nodes s ! C)) < length (grown (nodes s ! C))"
    using ninv ty by (intro slot_in_range) auto
  have le: "unat (nb_out (nodes s ! C)) \<le> length (successor (nodes s ! C))"
    using ninv unfolding node_inv_def by blast
  have nw: "unat (nb_out (nodes s ! C)) < 65535"
    using out_degree_less[OF ninv d N fresh] sz by simp
  have nwi: "unat (nb_in (nodes s ! N)) < 65535"
    using in_degree_less[OF C fresh] i sz by simp
  show ?thesis using e C N nw nwi rng le fresh by (rule edges_ok_add_edge)
qed

lemma aux_cfg_insert_edges:
  assumes inv: "state_inv s" and e: "edges_ok (nodes s)" and sz: "length (nodes s) \<le> 65535"
    and P: "P < length (nodes s)" and N: "N < length (nodes s)"
    and fresh: "Some N \<notin> set (succs (nodes s ! P))"
    and eq: "aux_cfg_insert s P (Some N) = Inr (r, s')"
  shows "edges_ok (nodes s')"
  using inv P N
proof (cases rule: aux_cfg_insert_cases)
  case full
  then show ?thesis using eq e by auto
next
  case call
  then show ?thesis using eq e by auto
next
  case edge
  have "edges_ok (add_edge (nodes s) P N)"
    using inv e sz P N _ fresh by (rule state_inv_add_edge_ok) (use edge(2) in auto)
  then show ?thesis using eq edge(1) by auto
next
  case (ret_found t rest)
  then show ?thesis using eq e by auto
next
  case (ret_edge t rest)
  note T = state_inv_stack[OF inv ret_edge(1)]
  have fr: "Some N \<notin> set (succs (nodes s ! t))"
    using ret_edge(4) by (rule not_has_successor_fresh)
  have "edges_ok (add_edge (nodes s) t N)"
    using inv e sz conjunct1[OF T] N _ fr by (rule state_inv_add_edge_ok) (use T in auto)
  then show ?thesis using eq ret_edge(5) by auto
qed

lemma aux_cfg_insert_length:
  assumes inv: "state_inv s" and P: "P < length (nodes s)" and N: "N < length (nodes s)"
    and eq: "aux_cfg_insert s P (Some N) = Inr (r, s')"
  shows "length (nodes s') = length (nodes s)"
  using inv P N
proof (cases rule: aux_cfg_insert_cases)
  case full
  then show ?thesis using eq by auto
next
  case call
  then show ?thesis using eq by auto
next
  case edge
  then show ?thesis using eq by (auto simp: add_edge_length)
next
  case (ret_found t rest)
  then show ?thesis using eq by auto
next
  case (ret_edge t rest)
  then show ?thesis using eq by (auto simp: add_edge_length)
qed

lemma cfg_insert_length:
  assumes inv: "state_inv s" and cur: "cur_cfg s = Some P"
    and eq: "cfg_insert s (Some P) ins str = Inr (r, s')"
  shows "length (nodes s') =
           (if hashtable_lookup (nodes s) (ht s) ins = None then Suc (length (nodes s))
            else length (nodes s))"
proof -
  note P = state_inv_cur[OF inv cur]
  show ?thesis
  proof (cases "hashtable_lookup (nodes s) (ht s) ins")
    case None
    obtain node where n: "nodes (prep_new s P ins str) = nodes s @ [node]"
        "state_inv (prep_new s P ins str)"
      using prep_new_props[OF inv P None, of str] by blast
    have a: "aux_cfg_insert (prep_new s P ins str) P (Some (length (nodes s))) = Inr (r, s')"
      using eq None by (simp add: cfg_insert_unfold[OF inv P])
    have P1: "P < length (nodes (prep_new s P ins str))"
      and N1: "length (nodes s) < length (nodes (prep_new s P ins str))"
      using P by (simp_all add: n(1))
    have "length (nodes s') = length (nodes (prep_new s P ins str))"
      using n(2) P1 N1 a by (rule aux_cfg_insert_length)
    then show ?thesis using None n(1) by simp
  next
    case (Some N)
    note N = lookup_known(1)[OF inv Some]
    note kp = prep_known_props[OF inv P]
    show ?thesis
    proof (cases "has_successor_at (nodes s) (nodes s ! P) (address (instruction (nodes s ! N)))")
      case True
      then have "s' = prep_known s P" using eq Some by (simp add: cfg_insert_unfold[OF inv P])
      then show ?thesis using Some kp(2) by simp
    next
      case False
      have a: "aux_cfg_insert (prep_known s P) P (Some N) = Inr (r, s')"
        using eq Some False by (simp add: cfg_insert_unfold[OF inv P])
      have P1: "P < length (nodes (prep_known s P))" and N1: "N < length (nodes (prep_known s P))"
        using P N by (simp_all add: kp(2))
      have "length (nodes s') = length (nodes (prep_known s P))"
        using kp(1) P1 N1 a by (rule aux_cfg_insert_length)
      then show ?thesis using Some kp(2) by simp
    qed
  qed
qed

lemma cfg_insert_edges:
  assumes inv: "state_inv s" and cur: "cur_cfg s = Some P"
    and e: "edges_ok (nodes s)"
    and eq: "cfg_insert s (Some P) ins str = Inr (r, s')"
    and sz: "length (nodes s') \<le> 65535"
  shows "edges_ok (nodes s')"
proof -
  note P = state_inv_cur[OF inv cur]
  note l = cfg_insert_length[OF inv cur eq]
  have valid: "list_all (node_inv (length (nodes s))) (nodes s)"
    using inv by (simp add: state_inv_def heap_inv_def)
  show ?thesis
  proof (cases "hashtable_lookup (nodes s) (ht s) ins")
    case None
    obtain node where n: "nodes (prep_new s P ins str) = nodes s @ [node]"
        "nb_in node = 0" "nb_out node = 0" "state_inv (prep_new s P ins str)"
      using prep_new_props[OF inv P None, of str] by blast
    have e1: "edges_ok (nodes (prep_new s P ins str))"
      using edges_ok_append[OF e valid n(2,3)] by (simp add: n(1))
    have "Some (length (nodes s)) \<notin> set (succs (nodes s ! P))"
      using node_inv_succs_valid[OF state_inv_node[OF inv P], of "length (nodes s)"] by auto
    then have fr: "Some (length (nodes s)) \<notin> set (succs (nodes (prep_new s P ins str) ! P))"
      using P by (simp add: n(1) nth_append)
    have a: "aux_cfg_insert (prep_new s P ins str) P (Some (length (nodes s))) = Inr (r, s')"
      using eq None by (simp add: cfg_insert_unfold[OF inv P])
    have P1: "P < length (nodes (prep_new s P ins str))"
      and N1: "length (nodes s) < length (nodes (prep_new s P ins str))"
      using P by (simp_all add: n(1))
    show ?thesis
      using n(4) e1 _ P1 N1 fr a by (rule aux_cfg_insert_edges) (use sz l None n(1) in simp)
  next
    case (Some N)
    note N = lookup_known(1)[OF inv Some]
    note kp = prep_known_props[OF inv P]
    show ?thesis
    proof (cases "has_successor_at (nodes s) (nodes s ! P) (address (instruction (nodes s ! N)))")
      case True
      then have "s' = prep_known s P" using eq Some by (simp add: cfg_insert_unfold[OF inv P])
      then show ?thesis using e kp(2) by simp
    next
      case False
      have fr: "Some N \<notin> set (succs (nodes (prep_known s P) ! P))"
        using not_has_successor_fresh[OF False] by (simp add: kp(2))
      have a: "aux_cfg_insert (prep_known s P) P (Some N) = Inr (r, s')"
        using eq Some False by (simp add: cfg_insert_unfold[OF inv P])
      have P1: "P < length (nodes (prep_known s P))" and N1: "N < length (nodes (prep_known s P))"
        using P N by (simp_all add: kp(2))
      have e1: "edges_ok (nodes (prep_known s P))" using e by (simp add: kp(2))
      show ?thesis
        using kp(1) e1 _ P1 N1 fr a by (rule aux_cfg_insert_edges) (use sz l Some kp(2) in simp)
    qed
  qed
qed

lemma observe_first_nodes:
  assumes inv: "state_inv s" and cur: "cur_cfg s = None"
    and eq: "observe s ob = Inr s'"
  shows "nodes s = [] \<and> (\<exists>node. nodes s' = [node] \<and> nb_in node = 0 \<and> nb_out node = 0)"
proof -
  obtain instr where i: "instr_new (ip ob) (insn_size ob) (Some (buf ob)) = Some instr"
    using eq by (auto simp: observe_def split: option.splits)
  have e: "nodes s = []" "first_entry s = []" using inv cur by (simp_all add: state_inv_def)
  obtain h where h: "ht s = Some h" "ht_inv (nodes s) h" using state_inv_ht[OF inv] by blast
  have none: "hashtable_lookup (nodes s) (ht s) instr = None"
    using h e ht_inv_empty_lookup by simp
  obtain node s1 where n: "cfg_new s instr (name_node ob) = (length (nodes s), s1)"
      "nodes s1 = nodes s @ [node]" "nb_in node = 0" "nb_out node = 0"
    using cfg_new_fresh[OF state_inv_heap[OF inv] none, of "name_node ob"] by blast
  have "nodes s' = [node]" using eq i cur n e by (auto simp: observe_def)
  then show ?thesis using e n(3,4) by simp
qed

lemma observe_length:
  assumes inv: "state_inv s" and eq: "observe s ob = Inr s'"
  shows "length (nodes s) \<le> length (nodes s')"
proof (cases "cur_cfg s")
  case None
  show ?thesis using observe_first_nodes[OF inv None eq] by auto
next
  case (Some P)
  obtain instr where i: "instr_new (ip ob) (insn_size ob) (Some (buf ob)) = Some instr"
    using eq by (auto simp: observe_def split: option.splits)
  obtain r s1 where r: "cfg_insert s (Some P) instr (name_node ob) = Inr (r, s1)"
      "nodes s' = nodes s1"
    using eq by (auto simp: observe_later[OF inv Some i] split: sum.splits option.splits)
  show ?thesis using cfg_insert_length[OF inv Some r(1)] r(2) by simp
qed

lemma observe_edges:
  assumes inv: "state_inv s" and e: "edges_ok (nodes s)"
    and eq: "observe s ob = Inr s'" and sz: "length (nodes s') \<le> 65535"
  shows "edges_ok (nodes s')"
proof (cases "cur_cfg s")
  case None
  obtain node where n: "nodes s' = [node]" "nb_in node = 0" "nb_out node = 0"
    using observe_first_nodes[OF inv None eq] by blast
  have "edges_ok ([] @ [node])"
    using n(2,3) by (intro edges_ok_append) (simp_all add: edges_ok_iff)
  then show ?thesis using n(1) by simp
next
  case (Some P)
  obtain instr where i: "instr_new (ip ob) (insn_size ob) (Some (buf ob)) = Some instr"
    using eq by (auto simp: observe_def split: option.splits)
  obtain r s1 where r: "cfg_insert s (Some P) instr (name_node ob) = Inr (r, s1)"
      "nodes s' = nodes s1"
    using eq by (auto simp: observe_later[OF inv Some i] split: sum.splits option.splits)
  show ?thesis using cfg_insert_edges[OF inv Some e r(1)] r(2) sz by simp
qed

lemma run_length:
  "state_inv s \<Longrightarrow> run s obl = Inr s' \<Longrightarrow> length (nodes s) \<le> length (nodes s')"
proof (induction obl arbitrary: s)
  case Nil
  then show ?case by simp
next
  case (Cons ob obl)
  from observe_state_inv[OF Cons.prems(1), of ob] Cons.prems(2)
  obtain s1 where s1: "observe s ob = Inr s1" "state_inv s1" by auto
  have "length (nodes s1) \<le> length (nodes s')"
    using s1 Cons.prems(2) by (intro Cons.IH) simp_all
  moreover have "length (nodes s) \<le> length (nodes s1)"
    using Cons.prems(1) s1(1) by (rule observe_length)
  ultimately show ?case by simp
qed

lemma run_edges:
  "state_inv s \<Longrightarrow> edges_ok (nodes s) \<Longrightarrow> run s obl = Inr s' \<Longrightarrow>
   length (nodes s') \<le> 65535 \<Longrightarrow> edges_ok (nodes s')"
proof (induction obl arbitrary: s)
  case Nil
  then show ?case by simp
next
  case (Cons ob obl)
  from observe_state_inv[OF Cons.prems(1), of ob] Cons.prems(3)
  obtain s1 where s1: "observe s ob = Inr s1" "state_inv s1" by auto
  have r: "run s1 obl = Inr s'" using Cons.prems(3) s1(1) by simp
  have "length (nodes s1) \<le> 65535" using run_length[OF s1(2) r] Cons.prems(4) by simp
  with Cons.prems(1,2) s1(1) have "edges_ok (nodes s1)" by (rule observe_edges)
  with s1(2) show ?case using r Cons.prems(4) by (rule Cons.IH)
qed

lemma succs_addresses_distinct:
  assumes inv: "node_inv n c" and d: "distinct (succs c)"
    and one: "inj_on (\<lambda>p. address (instruction (ns ! p))) {..<n}"
  shows "distinct (map (\<lambda>x. address (instruction (ns ! the x))) (succs c))"
proof -
  have "inj_on (\<lambda>x. address (instruction (ns ! the x))) (set (succs c))"
  proof (rule inj_onI)
    fix x y
    assume x: "x \<in> set (succs c)" and y: "y \<in> set (succs c)"
      and eq: "address (instruction (ns ! the x)) = address (instruction (ns ! the y))"
    obtain p where p: "x = Some p" "p < n" using node_inv_succs_some[OF inv x] by blast
    obtain q where q: "y = Some q" "q < n" using node_inv_succs_some[OF inv y] by blast
    have "p = q" using one p q eq by (auto simp: inj_on_def)
    then show "x = y" using p q by simp
  qed
  then show ?thesis using d by (simp add: distinct_map)
qed



section \<open>Edges behind a return\<close>

lemma prep_new_ret:
  assumes inv: "state_inv s" and P: "P < length (nodes s)"
    and ty: "type (instruction (nodes s ! P)) = RET"
    and none: "hashtable_lookup (nodes s) (ht s) ins = None"
  shows "prep_new s P ins str = snd (cfg_new s ins str)"
proof -
  obtain node s1 where n: "cfg_new s ins str = (length (nodes s), s1)"
      "nodes s1 = nodes s @ [node]"
    using cfg_new_fresh[OF state_inv_heap[OF inv] none, of str] by blast
  have "type (instruction (nodes s1 ! P)) = RET" using P ty n(2) by (simp add: nth_append)
  then show ?thesis using n(1) by (simp add: prep_new_def Let_def)
qed

lemma observe_behind_ret:
  assumes inv: "state_inv s" and cur: "cur_cfg s = Some P"
    and ty: "type (instruction (nodes s ! P)) = RET"
    and i: "instr_new (ip ob) (insn_size ob) (Some (buf ob)) = Some ins"
  shows "observe s ob =
     (case (case hashtable_lookup (nodes s) (ht s) ins of
              None \<Rightarrow> aux_cfg_insert (snd (cfg_new s ins (name_node ob))) P
                        (Some (length (nodes s)))
            | Some n \<Rightarrow>
                if has_successor_at (nodes s) (nodes s ! P) (address (instruction (nodes s ! n)))
                then Inr (Some n, s)
                else aux_cfg_insert s P (Some n)) of
        Inl e \<Rightarrow> Inl e
      | Inr (None, s1) \<Rightarrow> Inl CannotCreateCFG
      | Inr (Some cfg, s1) \<Rightarrow> Inr (s1 \<lparr> cur_cfg := Some cfg \<rparr>))"
proof -
  note P = state_inv_cur[OF inv cur]
  have k: "prep_known s P = s" using ty by (simp add: prep_known_def)
  show ?thesis
  proof (cases "hashtable_lookup (nodes s) (ht s) ins")
    case None
    show ?thesis
      using None prep_new_ret[OF inv P ty None, of "name_node ob"]
      by (simp add: observe_later[OF inv cur i] cfg_insert_unfold[OF inv P])
  next
    case (Some n)
    show ?thesis
      using Some k by (simp add: observe_later[OF inv cur i] cfg_insert_unfold[OF inv P])
  qed
qed

text \<open>
  C1. An instruction \<open>ins\<close> is observed behind a RET instruction \<open>P\<close>, in a memory
  that satisfies the builder's invariant. \<open>N\<close> is the node of \<open>ins\<close>, found by the
  lookup or made by \<open>cfg_new\<close>, and \<open>s0\<close> the memory once \<open>N\<close> exists. Unless the
  lookup finds \<open>N\<close> and a successor of \<open>P\<close> already has its address: when the call
  site \<open>C\<close> on top of the stack is followed in memory by \<open>N\<close>, the stack is popped,
  and the edge is installed from \<open>C\<close> (which is not \<open>P\<close>) unless a successor of \<open>C\<close>
  already has the address of \<open>N\<close>, as \<open>N\<close> itself has when it is among them, and
  then the graph is left as it is; with an empty stack, or a top that does not match,
  the edge is appended to \<open>P\<close> itself and the stack is kept. But when the lookup finds
  \<open>N\<close> and a successor of \<open>P\<close> already has its address, \<open>cfg_insert\<close> returns before
  it looks at the stack: nothing is popped and no edge is installed, whatever is on top
  of the stack.
\<close>

theorem ret_edge_from_call_site:
  assumes "state_inv s" and "cur_cfg s = Some P"
    and "type (instruction (nodes s ! P)) = RET"
    and "instr_new (ip ob) (insn_size ob) (Some (buf ob)) = Some ins"
    and "s0 = (case hashtable_lookup (nodes s) (ht s) ins of
                 None \<Rightarrow> snd (cfg_new s ins (name_node ob)) | Some n \<Rightarrow> s)"
    and "N = (case hashtable_lookup (nodes s) (ht s) ins of
                None \<Rightarrow> length (nodes s) | Some n \<Rightarrow> n)"
    and "known_edge = (case hashtable_lookup (nodes s) (ht s) ins of
                None \<Rightarrow> False
              | Some n \<Rightarrow> has_successor_at (nodes s) (nodes s ! P)
                            (address (instruction (nodes s ! n))))"
  shows
    "address (instruction (nodes s0 ! N)) = address ins
     \<and> take (length (nodes s)) (nodes s0) = nodes s \<and> stack s0 = stack s
     \<and> (\<not> known_edge \<and> stack s = C # rest \<and> ret_matches (nodes s0) N C
        \<and> \<not> has_successor_at (nodes s0) (nodes s0 ! C) (address (instruction (nodes s0 ! N)))
      \<longrightarrow> observe s ob
            = Inr (s0 \<lparr> stack := rest, nodes := add_edge (nodes s0) C N, cur_cfg := Some N \<rparr>)
          \<and> edge_installed (nodes s0) (add_edge (nodes s0) C N) C N \<and> C \<noteq> P)
     \<and> (\<not> known_edge \<and> stack s = C # rest \<and> ret_matches (nodes s0) N C
        \<and> has_successor_at (nodes s0) (nodes s0 ! C) (address (instruction (nodes s0 ! N)))
      \<longrightarrow> observe s ob = Inr (s0 \<lparr> stack := rest, cur_cfg := Some N \<rparr>))
     \<and> (Some N \<in> set (succs (nodes s0 ! C))
      \<longrightarrow> has_successor_at (nodes s0) (nodes s0 ! C) (address (instruction (nodes s0 ! N))))
     \<and> (\<not> known_edge \<and> (stack s = [] \<or> \<not> ret_matches (nodes s0) N (hd (stack s)))
      \<longrightarrow> observe s ob
            = Inr (s0 \<lparr> nodes := add_edge (nodes s0) P N, cur_cfg := Some N \<rparr>)
          \<and> edge_installed (nodes s0) (add_edge (nodes s0) P N) P N)
     \<and> (known_edge \<longrightarrow> observe s ob = Inr (s \<lparr> cur_cfg := Some N \<rparr>))"
proof -
  note inv = assms(1) and cur = assms(2) and ty = assms(3) and i = assms(4)
  note P = state_inv_cur[OF inv cur]
  note ob = observe_behind_ret[OF inv cur ty i]
  have base: "state_inv s0 \<and> P < length (nodes s0) \<and> N < length (nodes s0)
      \<and> type (instruction (nodes s0 ! P)) = RET
      \<and> address (instruction (nodes s0 ! N)) = address ins
      \<and> take (length (nodes s)) (nodes s0) = nodes s \<and> stack s0 = stack s"
  proof (cases "hashtable_lookup (nodes s) (ht s) ins")
    case None
    obtain node where n: "nodes (prep_new s P ins (name_node ob)) = nodes s @ [node]"
        "instruction node = ins" "state_inv (prep_new s P ins (name_node ob))"
        "stack (prep_new s P ins (name_node ob))
           = (if type (instruction (nodes s ! P)) = CALL then stack_push (stack s) P
              else stack s)"
      using prep_new_props[OF inv P None, of "name_node ob"] by blast
    have e: "s0 = prep_new s P ins (name_node ob)" "N = length (nodes s)"
      using None assms(5,6) prep_new_ret[OF inv P ty None, of "name_node ob"] by simp_all
    show ?thesis using n P ty by (simp add: e nth_append)
  next
    case (Some n)
    have e: "s0 = s" "N = n" using Some assms(5,6) by simp_all
    show ?thesis using lookup_known[OF inv Some] inv P ty by (simp add: e)
  qed
  note aux = aux_cfg_insert_ret[of s0 P N C rest]
  have run_aux: "observe s ob =
      (case aux_cfg_insert s0 P (Some N) of
         Inl e \<Rightarrow> Inl e
       | Inr (None, s1) \<Rightarrow> Inl CannotCreateCFG
       | Inr (Some cfg, s1) \<Rightarrow> Inr (s1 \<lparr> cur_cfg := Some cfg \<rparr>))" if "\<not> known_edge"
    using that assms(5,6,7) by (simp add: ob split: option.splits)
  have 1: "observe s ob
            = Inr (s0 \<lparr> stack := rest, nodes := add_edge (nodes s0) C N, cur_cfg := Some N \<rparr>)
          \<and> edge_installed (nodes s0) (add_edge (nodes s0) C N) C N \<and> C \<noteq> P"
    if "\<not> known_edge" "stack s = C # rest" "ret_matches (nodes s0) N C"
      "\<not> has_successor_at (nodes s0) (nodes s0 ! C) (address (instruction (nodes s0 ! N)))"
    using aux base that by (simp add: run_aux)
  have 2: "observe s ob = Inr (s0 \<lparr> stack := rest, cur_cfg := Some N \<rparr>)"
    if "\<not> known_edge" "stack s = C # rest" "ret_matches (nodes s0) N C"
      "has_successor_at (nodes s0) (nodes s0 ! C) (address (instruction (nodes s0 ! N)))"
    using aux base that by (simp add: run_aux)
  have 3: "observe s ob
            = Inr (s0 \<lparr> nodes := add_edge (nodes s0) P N, cur_cfg := Some N \<rparr>)
          \<and> edge_installed (nodes s0) (add_edge (nodes s0) P N) P N"
    if "\<not> known_edge" "stack s = [] \<or> \<not> ret_matches (nodes s0) N (hd (stack s))"
    using aux base that by (simp add: run_aux)
  have 4: "observe s ob = Inr (s \<lparr> cur_cfg := Some N \<rparr>)" if "known_edge"
    using that assms(6,7) by (simp add: ob split: option.splits)
  have 5: "has_successor_at (nodes s0) (nodes s0 ! C) (address (instruction (nodes s0 ! N)))"
    if "Some N \<in> set (succs (nodes s0 ! C))"
    using that by (rule has_successor_at_member)
  show ?thesis using base 1 2 3 4 5 by blast
qed

theorem ret_edge_from_call_site_witness:
  "cur_cfg state_ret_known = Some 2 \<and> type (instruction (nodes state_ret_known ! 2)) = RET
   \<and> stack state_ret_known = [1] \<and> ret_matches (nodes state_ret_known) 0 1
   \<and> hashtable_lookup (nodes state_ret_known) (ht state_ret_known)
        \<lparr> address = 0x1005, type = BASIC, size_i = 1, opcodes = [0x90] \<rparr> = Some 0
   \<and> observe state_ret_known (obs 0x1005 [0x90])
       = Inr (state_ret_known \<lparr> stack := [],
                nodes := add_edge (nodes state_ret_known) 1 0, cur_cfg := Some 0 \<rparr>)
   \<and> edge_installed (nodes state_ret_known) (add_edge (nodes state_ret_known) 1 0) 1 0
   \<and> successor (add_edge (nodes state_ret_known) 1 0 ! 1) = [Some 2, Some 0]
   \<and> successor (add_edge (nodes state_ret_known) 1 0 ! 2) = [None, None]"
proof -
  let ?ins = "\<lparr> address = 0x1005, type = BASIC, size_i = 1, opcodes = [0x90] \<rparr>"
  have inv: "state_inv state_ret_known"
    using run_trace_ret_known by (rule state_inv_reachable)
  have i: "instr_new (ip (obs 0x1005 [0x90])) (insn_size (obs 0x1005 [0x90]))
             (Some (buf (obs 0x1005 [0x90]))) = Some ?ins"
    by (simp add: exec_defs)
  have l: "hashtable_lookup (nodes state_ret_known) (ht state_ret_known) ?ins = Some 0"
    by (simp add: state_ret_known_def exec_defs bucket_scan.simps)
  have h: "cur_cfg state_ret_known = Some 2"
    "type (instruction (nodes state_ret_known ! 2)) = RET" "stack state_ret_known = [1]"
    "ret_matches (nodes state_ret_known) 0 1"
    "\<not> has_successor_at (nodes state_ret_known) (nodes state_ret_known ! 1)
         (address (instruction (nodes state_ret_known ! 0)))"
    "\<not> has_successor_at (nodes state_ret_known) (nodes state_ret_known ! 2)
         (address (instruction (nodes state_ret_known ! 0)))"
    by (simp_all add: state_ret_known_def ret_matches_def has_successor_at_def succs_def)
  have e: "successor (add_edge (nodes state_ret_known) 1 0 ! 1) = [Some 2, Some 0]"
    "successor (add_edge (nodes state_ret_known) 1 0 ! 2) = [None, None]"
    by (simp_all add: state_ret_known_def add_edge_successor grown_def)
  show ?thesis
    using ret_edge_from_call_site[OF inv h(1,2) i refl refl refl, of 1 "[]"] l h e by simp
qed

text \<open>
  A run in which a return to the instruction after the call site on top of the stack
  leaves the stack and the graph as they are. The return at 0xFF5 is first reached
  with an empty stack and goes to 0x1005, which makes 0x1005 a successor of the return
  itself. It is then called from 0x1000, a call of five bytes, and returns to 0x1005
  again: the call site stays on the stack and gets no edge to 0x1005.
\<close>

theorem return_to_known_successor_keeps_stack:
  "run init_state trace_ret_early = Inr state_ret_early
   \<and> cur_cfg state_ret_early = Some 1
   \<and> type (instruction (nodes state_ret_early ! 1)) = RET
   \<and> stack state_ret_early = [3]
   \<and> type (instruction (nodes state_ret_early ! 3)) = CALL
   \<and> address (instruction (nodes state_ret_early ! 2)) = 0x1005
   \<and> ret_matches (nodes state_ret_early) 2 3
   \<and> succs (nodes state_ret_early ! 3) = [Some 1]
   \<and> observe state_ret_early (obs 0x1005 [0xEB, 0xF9])
       = Inr (state_ret_early \<lparr> cur_cfg := Some 2 \<rparr>)
   \<and> run init_state (trace_ret_early @ [obs 0x1005 [0xEB, 0xF9]])
       = Inr (state_ret_early \<lparr> cur_cfg := Some 2 \<rparr>)"
proof -
  have o: "observe state_ret_early (obs 0x1005 [0xEB, 0xF9])
       = Inr (state_ret_early \<lparr> cur_cfg := Some 2 \<rparr>)"
    by (simp add: state_ret_early_def exec_defs bucket_scan.simps successor_scan.simps)
  have r: "run init_state (trace_ret_early @ [obs 0x1005 [0xEB, 0xF9]])
       = Inr (state_ret_early \<lparr> cur_cfg := Some 2 \<rparr>)"
    using run_trace_ret_early o by (simp add: run_append)
  have h: "cur_cfg state_ret_early = Some 1"
    "type (instruction (nodes state_ret_early ! 1)) = RET"
    "stack state_ret_early = [3]"
    "type (instruction (nodes state_ret_early ! 3)) = CALL"
    "address (instruction (nodes state_ret_early ! 2)) = 0x1005"
    "ret_matches (nodes state_ret_early) 2 3"
    "succs (nodes state_ret_early ! 3) = [Some 1]"
    by (simp_all add: state_ret_early_def ret_matches_def succs_def)
  show ?thesis using run_trace_ret_early o r h by simp
qed

section \<open>A run that wraps an in-degree counter\<close>

lemma run_trace_wrap_head: "run init_state trace_wrap_head = Inr state_wrap_head"
  by (simp add: trace_wrap_head_def obs_hub_def obs_spoke_def spoke_address_def
      state_wrap_head_def exec_defs)

lemma wrap_inv_head: "wrap_inv 2 state_wrap_head"
proof -
  have "state_inv state_wrap_head"
    using run_trace_wrap_head by (rule state_inv_reachable)
  moreover have "length (predecessors (nodes state_wrap_head) 1) = 2"
    by (simp add: predecessors_def state_wrap_head_def succs_def upt_conv_Cons)
  ultimately show ?thesis
    by (simp add: wrap_inv_def state_wrap_head_def upt_conv_Cons spoke_address_def)
qed

lemma lookup_fresh_address:
  assumes inv: "state_inv s"
    and fresh: "\<And>q. q < length (nodes s) \<Longrightarrow> address (instruction (nodes s ! q)) \<noteq> address ins"
  shows "hashtable_lookup (nodes s) (ht s) ins = None"
proof (cases "hashtable_lookup (nodes s) (ht s) ins")
  case None
  then show ?thesis .
next
  case (Some n)
  then show ?thesis using lookup_known[OF inv Some] fresh by blast
qed

lemma lookup_stored:
  assumes inv: "state_inv s" and p: "p < length (nodes s)"
  shows "hashtable_lookup (nodes s) (ht s) (instruction (nodes s ! p)) = Some p"
proof -
  obtain h where h: "ht s = Some h" "ht_inv (nodes s) h" using state_inv_ht[OF inv] by blast
  show ?thesis using hashtable_lookup_node[OF h(2) p] h(1) by simp
qed

lemma observe_jump_new:
  assumes inv: "state_inv s" and cur: "cur_cfg s = Some P"
    and ty: "type (instruction (nodes s ! P)) = JUMP"
    and i: "instr_new (ip ob) (insn_size ob) (Some (buf ob)) = Some ins"
    and none: "hashtable_lookup (nodes s) (ht s) ins = None"
  shows "\<exists>node s0. state_inv s0 \<and> nodes s0 = nodes s @ [node] \<and> instruction node = ins
           \<and> nb_in node = 0 \<and> nb_out node = 0
           \<and> observe s ob = Inr (s0 \<lparr> nodes := add_edge (nodes s0) P (length (nodes s)),
                                       cur_cfg := Some (length (nodes s)) \<rparr>)"
proof -
  note P = state_inv_cur[OF inv cur]
  let ?s0 = "prep_new s P ins (name_node ob)"
  obtain node where n: "nodes ?s0 = nodes s @ [node]" "instruction node = ins"
      "nb_in node = 0" "nb_out node = 0" "state_inv ?s0"
    using prep_new_props[OF inv P none, of "name_node ob"] by blast
  have P0: "P < length (nodes ?s0)" and N0: "length (nodes s) < length (nodes ?s0)"
    using P by (simp_all add: n(1))
  have ty0: "type (instruction (nodes ?s0 ! P)) = JUMP" using P ty by (simp add: n(1) nth_append)
  have "aux_cfg_insert ?s0 P (Some (length (nodes s)))
      = Inr (Some (length (nodes s)), ?s0 \<lparr> nodes := add_edge (nodes ?s0) P (length (nodes s)) \<rparr>)"
    using state_inv_node[OF n(5) P0] P0 N0 ty0 by (rule aux_jump)
  then have "observe s ob = Inr (?s0 \<lparr> nodes := add_edge (nodes ?s0) P (length (nodes s)),
                                       cur_cfg := Some (length (nodes s)) \<rparr>)"
    using none by (simp add: observe_later[OF inv cur i] cfg_insert_unfold[OF inv P])
  then show ?thesis using n by blast
qed

lemma observe_jump_known:
  assumes inv: "state_inv s" and cur: "cur_cfg s = Some P"
    and ty: "type (instruction (nodes s ! P)) = JUMP"
    and i: "instr_new (ip ob) (insn_size ob) (Some (buf ob)) = Some ins"
    and l: "hashtable_lookup (nodes s) (ht s) ins = Some N"
    and ns: "\<not> has_successor_at (nodes s) (nodes s ! P) (address (instruction (nodes s ! N)))"
  shows "observe s ob = Inr (s \<lparr> nodes := add_edge (nodes s) P N, cur_cfg := Some N \<rparr>)"
proof -
  note P = state_inv_cur[OF inv cur]
  note N = lookup_known(1)[OF inv l]
  have k: "prep_known s P = s" using ty by (simp add: prep_known_def)
  have "aux_cfg_insert s P (Some N) = Inr (Some N, s \<lparr> nodes := add_edge (nodes s) P N \<rparr>)"
    using state_inv_node[OF inv P] P N ty by (rule aux_jump)
  then show ?thesis
    using l ns k by (simp add: observe_later[OF inv cur i] cfg_insert_unfold[OF inv P])
qed

lemma predecessors_append:
  assumes valid: "list_all (node_inv (length ns)) ns" and node: "nb_out node = 0"
  shows "length (predecessors (ns @ [node]) n) = length (predecessors ns n)"
proof -
  have sn: "succs node = []" using node by (simp add: succs_def)
  have "{m. m < length (ns @ [node]) \<and> Some n \<in> set (succs ((ns @ [node]) ! m))}
          = {m. m < length ns \<and> Some n \<in> set (succs (ns ! m))}"
    using sn by (auto simp: nth_append less_Suc_eq)
  then show ?thesis by (simp only: predecessors_card)
qed

lemma spoke_address_unat: "r < 65536 \<Longrightarrow> unat (spoke_address r) = 0x10000 + 2 * r"
  unfolding spoke_address_def unat_of_nat by simp

lemma spoke_address_inj:
  assumes "q < 65536" "p < 65536"
  shows "(spoke_address q = spoke_address p) = (q = p)"
proof
  assume "spoke_address q = spoke_address p"
  then have "unat (spoke_address q) = unat (spoke_address p)" by simp
  then show "q = p" using assms by (simp add: spoke_address_unat)
qed simp

lemma spoke_address_hub: "p < 65536 \<Longrightarrow> spoke_address p \<noteq> 0x1000"
proof
  assume p: "p < 65536" and "spoke_address p = 0x1000"
  then have "unat (spoke_address p) = unat (0x1000 :: 64 word)" by simp
  then show False using p by (simp add: spoke_address_unat)
qed

lemma wrap_inv_iff:
  "wrap_inv p s \<longleftrightarrow>
     state_inv s \<and> length (nodes s) = p \<and> cur_cfg s = Some 1
     \<and> instruction (nodes s ! 1)
         = \<lparr> address = 0x1000, type = JUMP, size_i = 2, opcodes = [0xFF, 0xE3] \<rparr>
     \<and> (\<forall>q < p. q = 1 \<or> address (instruction (nodes s ! q)) = spoke_address q)
     \<and> unat (nb_out (nodes s ! 1)) = p - 1
     \<and> length (predecessors (nodes s) 1) = p
     \<and> nb_in (nodes s ! 1) = of_nat p"
  unfolding wrap_inv_def list_all_iff by auto

lemma wrap_step:
  assumes W: "wrap_inv p s" and p2: "2 \<le> p" and p: "p < 65536"
  shows "\<exists>s'. run s [obs_spoke p, obs_hub] = Inr s' \<and> wrap_inv (Suc p) s'"
proof -
  let ?hub = "\<lparr> address = 0x1000, type = JUMP, size_i = 2, opcodes = [0xFF, 0xE3] \<rparr>"
  let ?spoke = "\<lparr> address = spoke_address p, type = JUMP, size_i = 2,
                  opcodes = [0xFF, 0xE0] \<rparr>"
  have inv: "state_inv s" and len: "length (nodes s) = p" and cur: "cur_cfg s = Some 1"
    and hub: "instruction (nodes s ! 1) = ?hub"
    and adr: "\<And>q. q < p \<Longrightarrow> q \<noteq> 1 \<Longrightarrow> address (instruction (nodes s ! q)) = spoke_address q"
    and out: "unat (nb_out (nodes s ! 1)) = p - 1"
    and pre: "length (predecessors (nodes s) 1) = p"
    and cnt: "nb_in (nodes s ! 1) = of_nat p"
    using W unfolding wrap_inv_iff by blast+
  have i1: "instr_new (ip (obs_spoke p)) (insn_size (obs_spoke p)) (Some (buf (obs_spoke p)))
      = Some ?spoke"
    by (simp add: obs_spoke_def obs_def instr_new_def instr_new_type_def buffer_of_def
        upt_conv_Cons)
  have i2: "instr_new (ip obs_hub) (insn_size obs_hub) (Some (buf obs_hub)) = Some ?hub"
    by (simp add: obs_hub_def obs_def instr_new_def instr_new_type_def buffer_of_def
        upt_conv_Cons)
  have ty: "type (instruction (nodes s ! 1)) = JUMP" using hub by simp
  have none: "hashtable_lookup (nodes s) (ht s) ?spoke = None"
  proof (rule lookup_fresh_address[OF inv])
    fix q assume q: "q < length (nodes s)"
    show "address (instruction (nodes s ! q)) \<noteq> address ?spoke"
    proof (cases "q = 1")
      case True
      then show ?thesis using hub spoke_address_hub[OF p] by auto
    next
      case False
      then show ?thesis using adr[of q] q len p spoke_address_inj[of q p] by simp
    qed
  qed
  obtain node s0 where n: "state_inv s0" "nodes s0 = nodes s @ [node]"
      "instruction node = ?spoke" "nb_in node = 0" "nb_out node = 0"
      "observe s (obs_spoke p)
         = Inr (s0 \<lparr> nodes := add_edge (nodes s0) 1 (length (nodes s)),
                     cur_cfg := Some (length (nodes s)) \<rparr>)"
    using observe_jump_new[OF inv cur ty i1 none] by blast
  define ns0 where "ns0 = nodes s @ [node]"
  define ns1 where "ns1 = add_edge ns0 1 p"
  define s1 where "s1 = s0 \<lparr> nodes := ns1, cur_cfg := Some p \<rparr>"
  have o1: "observe s (obs_spoke p) = Inr s1"
    using n(6) by (simp add: s1_def ns1_def ns0_def n(2) len)
  have inv1: "state_inv s1" using observe_state_inv[OF inv, of "obs_spoke p"] o1 by auto
  have l0: "length ns0 = Suc p" by (simp add: ns0_def len)
  have one1: "ns0 ! 1 = nodes s ! 1" using p2 len by (simp add: ns0_def nth_append)
  have one0: "ns0 ! Suc 0 = nodes s ! Suc 0" "ns0 ! 1 = nodes s ! 1" using one1 by simp_all
  have p0: "ns0 ! p = node" using len by (simp add: ns0_def nth_append)
  have old0: "\<And>q. q < p \<Longrightarrow> ns0 ! q = nodes s ! q" using len by (simp add: ns0_def nth_append)
  have ninv0: "node_inv (Suc p) (ns0 ! 1)"
    using state_inv_node[OF n(1), of 1] n(2) len p2 by (simp add: ns0_def)
  have nw0: "unat (nb_out (ns0 ! 1)) < 65535" using out p p2 by (simp add: one0)
  have rng0: "unat (nb_out (ns0 ! 1)) < length (grown (ns0 ! 1))"
    using ninv0 by (rule slot_in_range) (use ty in \<open>simp add: one0\<close>)
  have le0: "unat (nb_out (ns0 ! 1)) \<le> length (successor (ns0 ! 1))"
    using ninv0 unfolding node_inv_def by blast
  have fresh0: "Some p \<notin> set (succs (ns0 ! 1))"
    using node_inv_succs_valid[OF state_inv_node[OF inv, of 1], of p] len p2 by (auto simp: one0)
  have valid: "list_all (node_inv (length (nodes s))) (nodes s)"
    using inv by (simp add: state_inv_def heap_inv_def)
  have pre0: "length (predecessors ns0 1) = p"
    using predecessors_append[OF valid n(5), of 1] pre by (simp add: ns0_def)
  have one_lt: "1 < length ns0" "p < length ns0" using l0 p2 by simp_all
  have pre1: "length (predecessors ns1 1) = p"
    using predecessors_add_edge[OF one_lt(1) nw0 rng0 le0 fresh0, of 1] p2 pre0
    by (simp add: ns1_def)
  have l1: "length ns1 = Suc p" by (simp add: ns1_def l0)
  have ins1: "\<And>q. q < Suc p \<Longrightarrow> instruction (ns1 ! q) = instruction (ns0 ! q)"
    by (simp add: ns1_def add_edge_instruction l0)
  have out1: "unat (nb_out (ns1 ! 1)) = p"
    using one_lt(1) unat_succ_16[OF nw0] out p2 by (simp add: ns1_def add_edge_nb_out one0)
  have outp: "nb_out (ns1 ! p) = 0"
    using one_lt(2) p2 n(5) by (simp add: ns1_def add_edge_nb_out p0)
  have in1: "nb_in (ns1 ! 1) = of_nat p"
    using one_lt(1) p2 cnt by (simp add: ns1_def add_edge_nb_in one0)
  have nodes1: "nodes s1 = ns1" and cur1: "cur_cfg s1 = Some p" by (simp_all add: s1_def)
  have ty1: "type (instruction (nodes s1 ! p)) = JUMP"
    using ins1[of p] n(3) by (simp add: nodes1 p0)
  have hub1: "instruction (nodes s1 ! 1) = ?hub"
    using ins1[of 1] p2 hub by (simp add: nodes1 one0)
  have l: "hashtable_lookup (nodes s1) (ht s1) ?hub = Some 1"
    using lookup_stored[OF inv1, of 1] hub1 l1 p2 by (simp add: nodes1)
  have sp: "succs (ns1 ! p) = []" using outp by (simp add: succs_def)
  have nh: "\<not> has_successor_at (nodes s1) (nodes s1 ! p)
               (address (instruction (nodes s1 ! 1)))"
    by (simp add: has_successor_at_def sp nodes1)
  define ns2 where "ns2 = add_edge ns1 p 1"
  define s2 where "s2 = s1 \<lparr> nodes := ns2, cur_cfg := Some 1 \<rparr>"
  have o2: "observe s1 obs_hub = Inr s2"
    using observe_jump_known[OF inv1 cur1 ty1 i2 l nh] by (simp add: s2_def ns2_def nodes1)
  have inv2: "state_inv s2" using observe_state_inv[OF inv1, of obs_hub] o2 by auto
  have ninv1: "node_inv (Suc p) (ns1 ! p)"
    using state_inv_node[OF inv1, of p] l1 by (simp add: nodes1)
  have lt1: "p < length ns1" "1 < length ns1" using l1 p2 by simp_all
  have nwp: "unat (nb_out (ns1 ! p)) < 65535" by (simp add: outp)
  have rngp: "unat (nb_out (ns1 ! p)) < length (grown (ns1 ! p))"
    using ninv1 by (rule slot_in_range) (simp add: outp)
  have lep: "unat (nb_out (ns1 ! p)) \<le> length (successor (ns1 ! p))" by (simp add: outp)
  have freshp: "Some 1 \<notin> set (succs (ns1 ! p))" by (simp add: sp)
  have pre2: "length (predecessors ns2 1) = Suc p"
    using predecessors_add_edge[OF lt1(1) nwp rngp lep freshp, of 1] pre1 by (simp add: ns2_def)
  have out2: "unat (nb_out (ns2 ! 1)) = p"
    using lt1(2) p2 out1 by (simp add: ns2_def add_edge_nb_out)
  have in2: "nb_in (ns2 ! 1) = of_nat (Suc p)"
    using lt1(2) in1 by (simp add: ns2_def add_edge_nb_in)
  have ins2: "\<And>q. q < Suc p \<Longrightarrow> instruction (ns2 ! q) = instruction (ns0 ! q)"
    using ins1 by (simp add: ns2_def add_edge_instruction l1)
  have adr2: "address (instruction (ns2 ! q)) = spoke_address q" if "q < Suc p" "q \<noteq> 1" for q
  proof (cases "q < p")
    case True
    then show ?thesis using ins2[OF that(1)] adr[OF True that(2)] by (simp add: old0)
  next
    case False
    then have "q = p" using that(1) by simp
    then show ?thesis using ins2[OF that(1)] n(3) by (simp add: p0)
  qed
  have hub2: "instruction (ns2 ! 1) = ?hub" using ins2[of 1] p2 hub by (simp add: one0)
  have adr3: "\<forall>q < Suc p. q = 1 \<or> address (instruction (nodes s2 ! q)) = spoke_address q"
    using adr2 by (auto simp: s2_def)
  have "wrap_inv (Suc p) s2"
    unfolding wrap_inv_iff
    using inv2 adr3 hub2 out2 pre2 in2 l1 by (simp add: s2_def ns2_def)
  moreover have "run s [obs_spoke p, obs_hub] = Inr s2" using o1 o2 by simp
  ultimately show ?thesis by blast
qed

lemma wrap_rounds:
  "wrap_inv p s \<Longrightarrow> 2 \<le> p \<Longrightarrow> p + k \<le> 65536 \<Longrightarrow>
   \<exists>s'. run s (concat (map (\<lambda>q. [obs_spoke q, obs_hub]) [p..<p + k])) = Inr s'
        \<and> wrap_inv (p + k) s'"
proof (induction k)
  case 0
  then show ?case by simp
next
  case (Suc k)
  obtain s1 where s1: "run s (concat (map (\<lambda>q. [obs_spoke q, obs_hub]) [p..<p + k])) = Inr s1"
      "wrap_inv (p + k) s1"
    using Suc.IH[OF Suc.prems(1,2)] Suc.prems(3) by auto
  obtain s2 where s2: "run s1 [obs_spoke (p + k), obs_hub] = Inr s2" "wrap_inv (Suc (p + k)) s2"
    using wrap_step[OF s1(2)] Suc.prems(2,3) by auto
  have "concat (map (\<lambda>q. [obs_spoke q, obs_hub]) [p..<p + Suc k])
      = concat (map (\<lambda>q. [obs_spoke q, obs_hub]) [p..<p + k]) @ [obs_spoke (p + k), obs_hub]"
    by simp
  then have "run s (concat (map (\<lambda>q. [obs_spoke q, obs_hub]) [p..<p + Suc k])) = Inr s2"
    using s1(1) s2(1) by (simp only: run_append sum.case)
  then show ?case using s2(2) by auto
qed

lemma wrap_rounds_upto:
  assumes "wrap_inv p s" "2 \<le> p" "p \<le> n" "n \<le> 65536"
  shows "\<exists>s'. run s (concat (map (\<lambda>q. [obs_spoke q, obs_hub]) [p..<n])) = Inr s'
        \<and> wrap_inv n s'"
proof -
  have "p + (n - p) = n" using assms(3) by simp
  then show ?thesis using wrap_rounds[OF assms(1,2), of "n - p"] assms(4) by simp
qed

lemma run_trace_wrap:
  "\<exists>s. run init_state trace_wrap = Inr s \<and> wrap_inv 65536 s"
proof -
  obtain s where s: "run state_wrap_head
        (concat (map (\<lambda>q. [obs_spoke q, obs_hub]) [2..<65536])) = Inr s"
      "wrap_inv 65536 s"
    using wrap_rounds_upto[OF wrap_inv_head, of 65536] by (auto simp del: upt_rec_numeral)
  have "run init_state trace_wrap = Inr s"
    unfolding trace_wrap_def run_append run_trace_wrap_head sum.case by (rule s(1))
  then show ?thesis using s(2) by blast
qed


end
